theory Spec2Isabelle
  imports Main "HOL-Library.Log_Nat" "HOL-Library.AList"
begin

section \<open>The fan controller of \<^verbatim>\<open>fans.py\<close>\<close>

text \<open>
  The program polls the temperature of every GPU, maps it to a band of admissible fan
  speeds and clamps the stored speed of the GPU into that band. The band comes from two
  quadratic curves that are evaluated in Python floats. Python ints are unbounded
  (\<open>int\<close>); a Python float is an IEEE 754 binary64 number and is represented here
  by the rational it denotes: no float operation of the program yields an infinity or a
  NaN (\<open>float_ops_finite\<close> below), the conversion of a huge int raises instead.
  Every exception the source can raise is a value of \<open>error\<close>.
\<close>

datatype error =
  OverflowError | KeyError | ValueError | OSError | CalledProcessError | KeyboardInterrupt

subsection \<open>Module constants\<close>

definition T_MIN :: int where "T_MIN = 50"
definition T_MAX :: int where "T_MAX = 80"
definition S_MIN :: int where "S_MIN = 30"
definition S_MAX :: int where "S_MAX = 99"

subsection \<open>Python float arithmetic\<close>

text \<open>
  \<open>rne\<close> rounds a rational to the nearest integer, ties to the even one.
  \<open>ilog2 x\<close> is the binary exponent \<open>\<lfloor>log\<^sub>2 x\<rfloor>\<close> of a positive rational, and
  \<open>fexp x\<close> the exponent of the last place of the binary64 format at \<open>x\<close>
  (53 significant bits, smallest exponent \<open>-1074\<close>). \<open>fl x\<close> is \<open>x\<close> rounded to
  the nearest binary64 number, the rounding every float operation of the source performs
  on its exact result.
\<close>

definition rne :: "rat \<Rightarrow> int" where
  "rne x = (let f = \<lfloor>x\<rfloor>; d = x - of_int f in
            if d < 1/2 then f else if 1/2 < d then f + 1 else if even f then f else f + 1)"

definition ilog2 :: "rat \<Rightarrow> int" where
  "ilog2 x = (if 1 \<le> x then bitlen \<lfloor>x\<rfloor> - 1 else - bitlen (\<lceil>1 / x\<rceil> - 1))"

definition fexp :: "rat \<Rightarrow> int" where
  "fexp x = max (ilog2 \<bar>x\<bar> - 52) (- 1074)"

definition fl :: "rat \<Rightarrow> rat" where
  "fl x = (if x = 0 then 0 else of_int (rne (x / 2 powi fexp x)) * 2 powi fexp x)"

text \<open>
  Converting an int to a float (which Python does to the int operand of a mixed
  \<open>float * int\<close>) rounds to nearest-even and raises \<open>OverflowError\<close> when the
  rounded value does not fit, that is from \<open>FLT_OVERFLOW = 2\<^sup>1\<^sup>0\<^sup>2\<^sup>4 - 2\<^sup>9\<^sup>7\<^sup>0\<close> on.
\<close>

definition FLT_OVERFLOW :: int where
  "FLT_OVERFLOW = 2 ^ 1024 - 2 ^ 970"

definition float_of_int :: "int \<Rightarrow> error + rat" where
  "float_of_int n =
     (let r = fl (of_int n) in if 2 ^ 1024 \<le> \<bar>r\<bar> then Inl OverflowError else Inr r)"

definition fmul :: "rat \<Rightarrow> rat \<Rightarrow> rat" where "fmul a b = fl (a * b)"
definition fdiv :: "rat \<Rightarrow> rat \<Rightarrow> rat" where "fdiv a b = fl (a / b)"
definition fadd :: "rat \<Rightarrow> rat \<Rightarrow> rat" where "fadd a b = fl (a + b)"
definition fsub :: "rat \<Rightarrow> rat \<Rightarrow> rat" where "fsub a b = fl (a - b)"

text \<open>
  Python's two-argument \<open>min(a, b)\<close> returns \<open>a\<close> unless \<open>b < a\<close>, and
  \<open>max(a, b)\<close> returns \<open>a\<close> unless \<open>b > a\<close>; \<open>int\<close> truncates towards zero.
\<close>

definition py_min :: "rat \<Rightarrow> rat \<Rightarrow> rat" where "py_min a b = (if b < a then b else a)"
definition py_max :: "rat \<Rightarrow> rat \<Rightarrow> rat" where "py_max a b = (if a < b then b else a)"
definition py_int :: "rat \<Rightarrow> int" where "py_int x = (if 0 \<le> x then \<lfloor>x\<rfloor> else \<lceil>x\<rceil>)"

subsection \<open>The fan curve\<close>

text \<open>
  \<^verbatim>\<open>SCALE = (S_MAX - S_MIN)/float(T_MAX - T_MIN)**2\<close>: the power binds tighter than
  the division, so the float 30.0 is squared and the int 69 is divided by the result. The
  module constants are far below \<open>2\<^sup>5\<^sup>3\<close>, so their conversion is exact and cannot raise.
\<close>

definition SCALE :: rat where
  "SCALE = fdiv (fl (of_int (S_MAX - S_MIN)))
                (fmul (fl (of_int (T_MAX - T_MIN))) (fl (of_int (T_MAX - T_MIN))))"

text \<open>
  \<^verbatim>\<open>int(min(SCALE*(t - T_MIN)**2 + S_MIN, S_MAX))\<close>: the square is an int, converted
  to a float for the product (this is where a huge temperature raises), and the int
  \<open>S_MIN\<close> is converted for the sum.
\<close>

definition min_speed :: "int \<Rightarrow> error + int" where
  "min_speed t =
     (if t < T_MIN then Inr S_MIN
      else case float_of_int ((t - T_MIN) ^ 2) of
             Inl e \<Rightarrow> Inl e
           | Inr d \<Rightarrow>
               Inr (py_int (py_min (fadd (fmul SCALE d) (fl (of_int S_MIN))) (of_int S_MAX))))"

definition max_speed :: "int \<Rightarrow> error + int" where
  "max_speed t =
     (if T_MAX < t then Inr S_MAX
      else case float_of_int ((t - T_MAX) ^ 2) of
             Inl e \<Rightarrow> Inl e
           | Inr d \<Rightarrow>
               Inr (py_int (py_max (fsub (fl (of_int S_MAX)) (fmul SCALE d)) (of_int S_MIN))))"

text \<open>\<open>target_speed s t\<close> returns the triple \<open>(speed, l, u)\<close>; \<open>min_speed\<close> runs first.\<close>

definition target_speed :: "int \<Rightarrow> int \<Rightarrow> error + int \<times> int \<times> int" where
  "target_speed s t =
     (case min_speed t of
        Inl e \<Rightarrow> Inl e
      | Inr l \<Rightarrow> (case max_speed t of
                   Inl e \<Rightarrow> Inl e
                 | Inr u \<Rightarrow> Inr (min (max s l) u, l, u)))"

subsection \<open>The fan curve as the specification words it\<close>

text \<open>
  The specification describes the curve as a clamped quadratic with
  \<open>SCALE = (S_MAX - S_MIN)/(T_MAX - T_MIN)\<^sup>2\<close>. These definitions follow that wording in
  exact rational arithmetic; they are compared with \<open>min_speed\<close> and \<open>max_speed\<close>
  below.
\<close>

definition SCALE_spec :: rat where
  "SCALE_spec = of_int (S_MAX - S_MIN) / (of_int (T_MAX - T_MIN)) ^ 2"

definition min_speed_spec :: "int \<Rightarrow> int" where
  "min_speed_spec t =
     (if t < T_MIN then S_MIN
      else py_int (min (SCALE_spec * (of_int (t - T_MIN)) ^ 2 + of_int S_MIN) (of_int S_MAX)))"

definition max_speed_spec :: "int \<Rightarrow> int" where
  "max_speed_spec t =
     (if T_MAX < t then S_MAX
      else py_int (max (of_int S_MAX - SCALE_spec * (of_int (t - T_MAX)) ^ 2) (of_int S_MIN)))"

text \<open>
  \<open>float_range t\<close>: the squares that \<open>min_speed t\<close> and \<open>max_speed t\<close> hand to the
  float multiplication can be converted. Every \<open>t\<close> with \<open>\<bar>t\<bar> \<le> 2\<^sup>5\<^sup>1\<^sup>1\<close> is in range.
\<close>

definition float_range :: "int \<Rightarrow> bool" where
  "float_range t \<longleftrightarrow>
     (t < T_MIN \<or> (t - T_MIN) ^ 2 < FLT_OVERFLOW) \<and>
     (T_MAX < t \<or> (t - T_MAX) ^ 2 < FLT_OVERFLOW)"

section \<open>Processes and external commands\<close>

text \<open>
  The rest of the program runs external commands. Their effects are recorded as a trace of
  events, oldest first, which every operation takes and returns extended. What an external
  command answers, and whether it raises, is not decided by the program: it is read from an
  environment \<open>env\<close>, indexed by the number of events so far, so that the same command can
  succeed at one time and fail at another. A process handle is the number of processes
  started before it.

  The events: \<open>Print s\<close> is a line printed; \<open>Popen d b\<close> is an \<^verbatim>\<open>Xorg\<close> process
  started on display \<open>d\<close> for the GPU at bus \<open>b\<close>; \<open>Terminate p\<close> is \<^verbatim>\<open>terminate()\<close>
  called on the process with handle \<open>p\<close>; \<open>Query b\<close> is the \<^verbatim>\<open>nvidia-smi\<close> temperature
  query for bus \<open>b\<close>; \<open>Assign d c\<close> is \<^verbatim>\<open>nvidia-settings -a c\<close> run with
  \<^verbatim>\<open>DISPLAY=d\<close>; \<open>Sleep n\<close> is \<^verbatim>\<open>time.sleep(n)\<close>. An interrupt of the program is
  delivered at a sleep (\<open>sleep_raises\<close>) or as the failure of an external command.
\<close>

type_synonym bus = string
type_synonym display = string

datatype event =
    Print string
  | Popen display bus
  | Terminate nat
  | Query bus
  | Assign display string
  | Sleep nat

type_synonym trace = "event list"

record env =
  xserver_raises :: "nat \<Rightarrow> display \<Rightarrow> bus \<Rightarrow> error option"
  temperature_out :: "nat \<Rightarrow> bus \<Rightarrow> error + int"
  assign_raises :: "nat \<Rightarrow> display \<Rightarrow> string \<Rightarrow> error option"
  sleep_raises :: "nat \<Rightarrow> error option"
  gpu_buses_out :: "nat \<Rightarrow> error + bus list"

text \<open>Observations of a trace: the processes started, the handles terminated, the buses queried.\<close>

fun spawned :: "trace \<Rightarrow> (display \<times> bus) list" where
  "spawned [] = []"
| "spawned (Popen d b # tr) = (d, b) # spawned tr"
| "spawned (_ # tr) = spawned tr"

fun terminated :: "trace \<Rightarrow> nat list" where
  "terminated [] = []"
| "terminated (Terminate p # tr) = p # terminated tr"
| "terminated (_ # tr) = terminated tr"

fun queried :: "trace \<Rightarrow> bus list" where
  "queried [] = []"
| "queried (Query b # tr) = b # queried tr"
| "queried (_ # tr) = queried tr"

fun assigned :: "trace \<Rightarrow> (display \<times> string) list" where
  "assigned [] = []"
| "assigned (Assign d c # tr) = (d, c) # assigned tr"
| "assigned (_ # tr) = assigned tr"

fun slept :: "trace \<Rightarrow> nat list" where
  "slept [] = []"
| "slept (Sleep n # tr) = n # slept tr"
| "slept (_ # tr) = slept tr"

subsection \<open>Python's \<open>str\<close> on ints\<close>

definition digit :: "nat \<Rightarrow> char" where
  "digit n = ''0123456789'' ! n"

fun str_nat :: "nat \<Rightarrow> string" where
  "str_nat n = (if n < 10 then [digit n] else str_nat (n div 10) @ [digit (n mod 10)])"

declare str_nat.simps [simp del]

definition str_int :: "int \<Rightarrow> string" where
  "str_int i = (if i < 0 then CHR ''-'' # str_nat (nat (- i)) else str_nat (nat i))"

text \<open>Reading a decimal numeral back, to show that \<open>str\<close> loses nothing.\<close>

definition digit_value :: "char \<Rightarrow> nat" where
  "digit_value c = of_char c - 48"

definition nat_of_str :: "string \<Rightarrow> nat" where
  "nat_of_str cs = foldl (\<lambda>a c. 10 * a + digit_value c) 0 cs"

subsection \<open>The X servers\<close>

text \<open>
  \<open>xserver\<close> writes the configuration and starts \<^verbatim>\<open>Xorg\<close>. Writing the files or starting
  the process can raise; then no process exists. A dict is an association list in insertion
  order, and \<open>AList.update\<close> is the assignment \<^verbatim>\<open>d[k] = v\<close>: it overwrites the value of a
  key that is present and appends a new key. \<open>display_id d\<close> is \<^verbatim>\<open>':' + str(d)\<close>.
\<close>

definition display_id :: "nat \<Rightarrow> display" where
  "display_id d = CHR '':'' # str_nat d"

definition xserver :: "env \<Rightarrow> display \<Rightarrow> bus \<Rightarrow> trace \<Rightarrow> error + nat \<times> trace" where
  "xserver e d b tr =
     (case xserver_raises e (length tr) d b of
        Some err \<Rightarrow> Inl err
      | None \<Rightarrow> Inr (length (spawned tr), tr @ [Popen d b]))"

text \<open>The \<^verbatim>\<open>for d, bus in enumerate(buses)\<close> loop in the \<^verbatim>\<open>try\<close> block of \<open>xservers\<close>.\<close>

fun xservers_start ::
  "env \<Rightarrow> (nat \<times> bus) list \<Rightarrow> (bus \<times> display) list \<Rightarrow> (bus \<times> nat) list \<Rightarrow> trace \<Rightarrow>
     error option \<times> (bus \<times> display) list \<times> (bus \<times> nat) list \<times> trace" where
  "xservers_start e [] displays servers tr = (None, displays, servers, tr)"
| "xservers_start e ((d, b) # rest) displays servers tr =
     (let disp = display_id d;
          displays' = AList.update b disp displays;
          tr1 = tr @ [Print (''Starting xserver for display '' @ disp)]
      in case xserver e disp b tr1 of
           Inl err \<Rightarrow> (Some err, displays', servers, tr1)
         | Inr (proc, tr2) \<Rightarrow> xservers_start e rest displays' (AList.update b proc servers) tr2)"

text \<open>The \<^verbatim>\<open>finally\<close> block of \<open>xservers\<close>; \<^verbatim>\<open>displays[bus]\<close> raises on a missing key.\<close>

fun xservers_stop ::
  "(bus \<times> display) list \<Rightarrow> (bus \<times> nat) list \<Rightarrow> trace \<Rightarrow> error option \<times> trace" where
  "xservers_stop displays [] tr = (None, tr)"
| "xservers_stop displays ((b, server) # rest) tr =
     (case map_of displays b of
        None \<Rightarrow> (Some KeyError, tr)
      | Some disp \<Rightarrow>
          xservers_stop displays rest
            (tr @ [Print (''Terminating xserver for display '' @ disp), Terminate server]))"

text \<open>
  The context manager, applied to the body of the \<^verbatim>\<open>with\<close> statement. The body gets the
  mapping; it returns \<open>None\<close> when it never returns, and otherwise the exception it raised,
  if any, with the trace. An exception of the \<^verbatim>\<open>finally\<close> block replaces the pending one.
\<close>

definition xservers ::
  "env \<Rightarrow> bus list \<Rightarrow> ((bus \<times> display) list \<Rightarrow> trace \<Rightarrow> (error option \<times> trace) option) \<Rightarrow>
     trace \<Rightarrow> (error option \<times> trace) option" where
  "xservers e buses body tr =
     (case xservers_start e (List.enumerate 0 buses) [] [] tr of
        (r, displays, servers, tr1) \<Rightarrow>
          (case (case r of Some err \<Rightarrow> Some (Some err, tr1) | None \<Rightarrow> body displays tr1) of
             None \<Rightarrow> None
           | Some (r', tr2) \<Rightarrow>
               (case xservers_stop displays servers tr2 of
                  (Some err, tr3) \<Rightarrow> Some (Some err, tr3)
                | (None, tr3) \<Rightarrow> Some (r', tr3))))"

subsection \<open>The control loop\<close>

definition temperature :: "env \<Rightarrow> bus \<Rightarrow> trace \<Rightarrow> (error + int) \<times> trace" where
  "temperature e b tr = (temperature_out e (length tr) b, tr @ [Query b])"

definition assign :: "env \<Rightarrow> display \<Rightarrow> string \<Rightarrow> trace \<Rightarrow> error option \<times> trace" where
  "assign e d command tr = (assign_raises e (length tr) d command, tr @ [Assign d command])"

definition set_speed :: "env \<Rightarrow> display \<Rightarrow> int \<Rightarrow> trace \<Rightarrow> error option \<times> trace" where
  "set_speed e d target tr =
     (case assign e d ''[gpu:0]/GPUFanControlState=1'' tr of
        (Some err, tr1) \<Rightarrow> (Some err, tr1)
      | (None, tr1) \<Rightarrow> assign e d (''[fan:0]/GPUTargetFanSpeed='' @ str_int target) tr1)"

definition sleep :: "env \<Rightarrow> nat \<Rightarrow> trace \<Rightarrow> error option \<times> trace" where
  "sleep e n tr = (sleep_raises e (length tr), tr @ [Sleep n])"

definition report :: "display \<Rightarrow> int \<Rightarrow> int \<Rightarrow> int \<Rightarrow> string \<Rightarrow> int \<Rightarrow> string" where
  "report d temp l u verb s =
     ''GPU '' @ d @ '', '' @ str_int temp @ ''C -> ['' @ str_int l @ ''%-'' @ str_int u @
     ''%]. '' @ verb @ str_int s @ ''%''"

text \<open>The body of the \<^verbatim>\<open>for bus, display in displays.items()\<close> loop, for one GPU.\<close>

definition manage_gpu ::
  "env \<Rightarrow> bus \<Rightarrow> display \<Rightarrow> (bus \<times> int) list \<Rightarrow> trace \<Rightarrow>
     error \<times> trace + (bus \<times> int) list \<times> trace" where
  "manage_gpu e b d speeds tr =
     (case temperature e b tr of
        (Inl err, tr1) \<Rightarrow> Inl (err, tr1)
      | (Inr temp, tr1) \<Rightarrow>
          (case map_of speeds b of
             None \<Rightarrow> Inl (KeyError, tr1)
           | Some cur \<Rightarrow>
               (case target_speed cur temp of
                  Inl err \<Rightarrow> Inl (err, tr1)
                | Inr (s, l, u) \<Rightarrow>
                    if s \<noteq> cur then
                      (case set_speed e d s tr1 of
                         (Some err, tr2) \<Rightarrow> Inl (err, tr2)
                       | (None, tr2) \<Rightarrow>
                           Inr (AList.update b s speeds,
                                tr2 @ [Print (report d temp l u ''Setting speed to '' s)]))
                    else Inr (speeds, tr1 @ [Print (report d temp l u ''Leaving speed at '' s)]))))"

fun manage_gpus ::
  "env \<Rightarrow> (bus \<times> display) list \<Rightarrow> (bus \<times> int) list \<Rightarrow> trace \<Rightarrow>
     error \<times> trace + (bus \<times> int) list \<times> trace" where
  "manage_gpus e [] speeds tr = Inr (speeds, tr)"
| "manage_gpus e ((b, d) # rest) speeds tr =
     (case manage_gpu e b d speeds tr of
        Inl x \<Rightarrow> Inl x
      | Inr (speeds', tr') \<Rightarrow> manage_gpus e rest speeds' tr')"

text \<open>One pass of \<^verbatim>\<open>while True\<close>: every GPU, then \<^verbatim>\<open>time.sleep(5)\<close>.\<close>

definition iteration ::
  "env \<Rightarrow> (bus \<times> display) list \<Rightarrow> (bus \<times> int) list \<Rightarrow> trace \<Rightarrow>
     error \<times> trace + (bus \<times> int) list \<times> trace" where
  "iteration e displays speeds tr =
     (case manage_gpus e displays speeds tr of
        Inl x \<Rightarrow> Inl x
      | Inr (speeds', tr1) \<Rightarrow>
          (case sleep e 5 tr1 of
             (Some err, tr2) \<Rightarrow> Inl (err, tr2)
           | (None, tr2) \<Rightarrow> Inr (speeds', tr2)))"

text \<open>The loop has no exit but an exception; a run that never raises is \<open>None\<close>.\<close>

partial_function (option) manage_loop ::
  "env \<Rightarrow> (bus \<times> display) list \<Rightarrow> (bus \<times> int) list \<Rightarrow> trace \<Rightarrow> (error \<times> trace) option" where
  "manage_loop e displays speeds tr =
     (case iteration e displays speeds tr of
        Inl x \<Rightarrow> Some x
      | Inr (speeds', tr') \<Rightarrow> manage_loop e displays speeds' tr')"

text \<open>
  \<open>passes e displays n\<close> is the first \<open>n\<close> passes of that loop: the state at the head of
  pass \<open>n + 1\<close>, or the exception that ended an earlier pass.
\<close>

fun passes ::
  "env \<Rightarrow> (bus \<times> display) list \<Rightarrow> nat \<Rightarrow> (bus \<times> int) list \<Rightarrow> trace \<Rightarrow>
     error \<times> trace + (bus \<times> int) list \<times> trace" where
  "passes e displays 0 speeds tr = Inr (speeds, tr)"
| "passes e displays (Suc n) speeds tr =
     (case iteration e displays speeds tr of
        Inl x \<Rightarrow> Inl x
      | Inr (speeds', tr') \<Rightarrow> passes e displays n speeds' tr')"

definition release_command :: string where
  "release_command = ''[gpu:0]/GPUFanControlState=0''"

text \<open>The \<^verbatim>\<open>finally\<close> block of \<open>manage_fans\<close>.\<close>

fun release_fans :: "env \<Rightarrow> (bus \<times> display) list \<Rightarrow> trace \<Rightarrow> error option \<times> trace" where
  "release_fans e [] tr = (None, tr)"
| "release_fans e ((b, d) # rest) tr =
     (case assign e d release_command tr of
        (Some err, tr1) \<Rightarrow> (Some err, tr1)
      | (None, tr1) \<Rightarrow>
          release_fans e rest (tr1 @ [Print (''Released fan speed control for GPU at '' @ d)]))"

text \<open>
  \<open>manage_fans_from\<close> is \<open>manage_fans\<close> seen from the head of the loop, with the speeds
  stored so far: the rest of the loop, then the \<^verbatim>\<open>finally\<close> block. \<open>manage_fans\<close> enters
  it with every speed 0.
\<close>

definition manage_fans_from ::
  "env \<Rightarrow> (bus \<times> display) list \<Rightarrow> (bus \<times> int) list \<Rightarrow> trace \<Rightarrow> (error option \<times> trace) option" where
  "manage_fans_from e displays speeds tr =
     (case manage_loop e displays speeds tr of
        None \<Rightarrow> None
      | Some (err, tr1) \<Rightarrow>
          (case release_fans e displays tr1 of
             (Some err', tr2) \<Rightarrow> Some (Some err', tr2)
           | (None, tr2) \<Rightarrow> Some (Some err, tr2)))"

definition manage_fans ::
  "env \<Rightarrow> (bus \<times> display) list \<Rightarrow> trace \<Rightarrow> (error option \<times> trace) option" where
  "manage_fans e displays tr = manage_fans_from e displays (map (\<lambda>(b, d). (b, 0)) displays) tr"

definition gpu_buses :: "env \<Rightarrow> trace \<Rightarrow> error + bus list" where
  "gpu_buses e tr = gpu_buses_out e (length tr)"

definition run :: "env \<Rightarrow> trace \<Rightarrow> (error option \<times> trace) option" where
  "run e tr =
     (case gpu_buses e tr of
        Inl err \<Rightarrow> Some (Some err, tr)
      | Inr buses \<Rightarrow> xservers e buses (manage_fans e) tr)"

subsection \<open>Sample environments\<close>

text \<open>
  \<open>quiet_env\<close>: nothing fails, every GPU reports 60 degrees and there are two GPUs.
  \<open>interrupted_env\<close>: as \<open>quiet_env\<close>, but the program is interrupted at the first sleep that
  starts after twelve or more events.
  \<open>failing_env\<close>: the temperature query and every \<^verbatim>\<open>nvidia-settings\<close> call fail, as they
  do when the driver tools stop answering.
\<close>

definition quiet_env :: env where
  "quiet_env =
     \<lparr>xserver_raises = (\<lambda>k d b. None),
      temperature_out = (\<lambda>k b. Inr 60),
      assign_raises = (\<lambda>k d c. None),
      sleep_raises = (\<lambda>k. None),
      gpu_buses_out = (\<lambda>k. Inr [''00000000:01:00.0'', ''00000000:02:00.0''])\<rparr>"

definition interrupted_env :: env where
  "interrupted_env =
     quiet_env\<lparr>sleep_raises := (\<lambda>k. if k < 12 then None else Some KeyboardInterrupt)\<rparr>"


section \<open>Properties of the float rounding\<close>

lemma rne_of_int: "rne (of_int n) = n"
  by (simp add: rne_def)

lemma rne_lower: "\<lfloor>x\<rfloor> \<le> rne x"
  by (simp add: rne_def Let_def)

lemma rne_upper: "rne x \<le> \<lfloor>x\<rfloor> + 1"
  by (simp add: rne_def Let_def)

lemma rne_mono: "x \<le> y \<Longrightarrow> rne x \<le> rne y"
proof -
  assume xy: "x \<le> y"
  have fm: "\<lfloor>x\<rfloor> \<le> \<lfloor>y\<rfloor>" using xy by (rule floor_mono)
  show ?thesis
  proof (cases "\<lfloor>x\<rfloor> = \<lfloor>y\<rfloor>")
    case True
    with xy have "x - of_int \<lfloor>x\<rfloor> \<le> y - of_int \<lfloor>y\<rfloor>" by simp
    with True show ?thesis by (auto simp: rne_def Let_def)
  next
    case False
    with fm have "\<lfloor>x\<rfloor> + 1 \<le> \<lfloor>y\<rfloor>" by simp
    with rne_upper [of x] rne_lower [of y] show ?thesis by linarith
  qed
qed

lemma rne_le: "x \<le> of_int n \<Longrightarrow> rne x \<le> n"
  using rne_mono [of x "of_int n"] by (simp add: rne_of_int)

lemma rne_ge: "of_int n \<le> x \<Longrightarrow> n \<le> rne x"
  using rne_mono [of "of_int n" x] by (simp add: rne_of_int)

lemma bitlen_pos: "0 < m \<Longrightarrow> 1 \<le> bitlen m"
  using bitlen_eq_zero_iff [of m] bitlen_nonneg [of m] by linarith

lemma bitlen_rat_lower: "0 < m \<Longrightarrow> (2::rat) powi (bitlen m - 1) \<le> of_int m"
proof -
  assume m: "0 < m"
  from bitlen_bounds [OF m] have "2 ^ nat (bitlen m - 1) \<le> m" by simp
  then have "(of_int (2 ^ nat (bitlen m - 1)) :: rat) \<le> of_int m"
    by (simp only: of_int_le_iff)
  then show ?thesis using bitlen_pos [OF m] by (simp add: power_int_def)
qed

lemma bitlen_rat_upper: "0 < m \<Longrightarrow> of_int m < (2::rat) powi (bitlen m)"
proof -
  assume m: "0 < m"
  from bitlen_bounds [OF m] have "m < 2 ^ nat (bitlen m)" by simp
  then have "(of_int m :: rat) < of_int (2 ^ nat (bitlen m))"
    by (simp only: of_int_less_iff)
  then show ?thesis using bitlen_pos [OF m] by (simp add: power_int_def)
qed

lemma ilog2_lower:
  assumes "0 < x"
  shows "2 powi (ilog2 x) \<le> x"
proof (cases "1 \<le> x")
  case True
  then have m: "0 < \<lfloor>x\<rfloor>" by linarith
  have "(2::rat) powi (bitlen \<lfloor>x\<rfloor> - 1) \<le> of_int \<lfloor>x\<rfloor>" by (rule bitlen_rat_lower [OF m])
  also have "\<dots> \<le> x" by simp
  finally show ?thesis using True by (simp add: ilog2_def)
next
  case False
  with assms have y: "1 < 1 / x" by simp
  then have m: "0 < \<lceil>1 / x\<rceil> - 1" by linarith
  have "1 / x \<le> of_int \<lceil>1 / x\<rceil>" by simp
  also have "\<dots> = of_int (\<lceil>1 / x\<rceil> - 1) + 1" by simp
  also have "\<dots> \<le> 2 powi (bitlen (\<lceil>1 / x\<rceil> - 1))"
  proof -
    from bitlen_bounds [OF m] have "\<lceil>1 / x\<rceil> - 1 + 1 \<le> 2 ^ nat (bitlen (\<lceil>1 / x\<rceil> - 1))" by linarith
    then have "(of_int (\<lceil>1 / x\<rceil> - 1 + 1) :: rat) \<le> of_int (2 ^ nat (bitlen (\<lceil>1 / x\<rceil> - 1)))"
      by (simp only: of_int_le_iff)
    then show ?thesis using bitlen_pos [OF m] by (simp add: power_int_def)
  qed
  finally have "1 / x \<le> 2 powi (bitlen (\<lceil>1 / x\<rceil> - 1))" .
  then have "1 / 2 powi (bitlen (\<lceil>1 / x\<rceil> - 1)) \<le> x"
    using assms by (simp add: field_simps)
  then show ?thesis using False by (simp add: ilog2_def power_int_minus_divide)
qed

lemma ilog2_upper:
  assumes "0 < x"
  shows "x < 2 powi (ilog2 x + 1)"
proof (cases "1 \<le> x")
  case True
  then have m: "0 < \<lfloor>x\<rfloor>" by linarith
  have "x < of_int \<lfloor>x\<rfloor> + 1" by linarith
  also have "\<dots> = of_int (\<lfloor>x\<rfloor> + 1)" by simp
  also have "\<dots> \<le> 2 powi (bitlen \<lfloor>x\<rfloor>)"
  proof -
    from bitlen_bounds [OF m] have "\<lfloor>x\<rfloor> + 1 \<le> 2 ^ nat (bitlen \<lfloor>x\<rfloor>)" by linarith
    then have "(of_int (\<lfloor>x\<rfloor> + 1) :: rat) \<le> of_int (2 ^ nat (bitlen \<lfloor>x\<rfloor>))"
      by (simp only: of_int_le_iff)
    then show ?thesis using bitlen_pos [OF m] by (simp add: power_int_def)
  qed
  finally show ?thesis using True by (simp add: ilog2_def)
next
  case False
  with assms have y: "1 < 1 / x" by simp
  then have m: "0 < \<lceil>1 / x\<rceil> - 1" by linarith
  let ?c = "bitlen (\<lceil>1 / x\<rceil> - 1)"
  have "(2::rat) powi (?c - 1) \<le> of_int (\<lceil>1 / x\<rceil> - 1)" by (rule bitlen_rat_lower [OF m])
  also have "\<dots> < 1 / x" by linarith
  finally have "(2::rat) powi (?c - 1) < 1 / x" .
  moreover have "0 < (2::rat) powi (?c - 1)" by simp
  ultimately have "x < 1 / 2 powi (?c - 1)"
    using assms by (simp add: field_simps)
  then have "x < 2 powi (- (?c - 1))" by (simp only: power_int_minus_divide)
  moreover have "- (?c - 1) = - ?c + 1" by simp
  ultimately have "x < 2 powi (- ?c + 1)" by (simp only:)
  then show ?thesis using False by (simp only: ilog2_def if_False)
qed


lemma ilog2_mono:
  assumes "0 < x" and "x \<le> y"
  shows "ilog2 x \<le> ilog2 y"
proof (rule ccontr)
  assume "\<not> ilog2 x \<le> ilog2 y"
  then have "ilog2 y + 1 \<le> ilog2 x" by simp
  then have "(2::rat) powi (ilog2 y + 1) \<le> 2 powi (ilog2 x)"
    by (rule power_int_increasing) simp
  also have "\<dots> \<le> x" using assms(1) by (rule ilog2_lower)
  also have "\<dots> \<le> y" by (rule assms(2))
  finally have "(2::rat) powi (ilog2 y + 1) \<le> y" .
  moreover have "y < 2 powi (ilog2 y + 1)" using assms by (intro ilog2_upper) simp
  ultimately show False by simp
qed

lemma fexp_mono:
  assumes "0 < x" and "x \<le> y"
  shows "fexp x \<le> fexp y"
  using ilog2_mono [of "\<bar>x\<bar>" "\<bar>y\<bar>"] assms by (simp add: fexp_def)

lemma fl_nonneg: "0 \<le> x \<Longrightarrow> 0 \<le> fl x"
proof -
  assume x: "0 \<le> x"
  then have "(of_int 0 :: rat) \<le> x / 2 powi fexp x" by simp
  then have "0 \<le> rne (x / 2 powi fexp x)" by (rule rne_ge)
  then show ?thesis by (simp add: fl_def)
qed

lemma fl_nonpos: "x \<le> 0 \<Longrightarrow> fl x \<le> 0"
proof -
  assume x: "x \<le> 0"
  then have "x / 2 powi fexp x \<le> (of_int 0 :: rat)" by (simp add: divide_le_0_iff)
  then have "rne (x / 2 powi fexp x) \<le> 0" by (rule rne_le)
  then show ?thesis by (simp add: fl_def mult_le_0_iff)
qed

lemma fl_upper_binade:
  assumes "0 < x"
  shows "fl x \<le> 2 powi (fexp x + 53)"
proof -
  let ?P = "(2::rat) powi fexp x"
  have P: "0 < ?P" by simp
  have "x < 2 powi (ilog2 x + 1)" using assms by (rule ilog2_upper)
  also have "\<dots> \<le> 2 powi (fexp x + 53)"
    using assms by (intro power_int_increasing) (simp_all add: fexp_def)
  also have "\<dots> = 2 powi 53 * ?P" by (simp add: power_int_add)
  finally have "x / ?P < 2 powi 53" using P by (simp add: field_simps)
  then have "x / ?P \<le> of_int (2 ^ 53)" by simp
  then have "rne (x / ?P) \<le> 2 ^ 53" by (rule rne_le)
  then have "(of_int (rne (x / ?P)) :: rat) \<le> of_int (2 ^ 53)" by (simp only: of_int_le_iff)
  then have "of_int (rne (x / ?P)) * ?P \<le> of_int (2 ^ 53) * ?P"
    using P by (simp only: mult_le_cancel_right_pos)
  also have "\<dots> = 2 powi (fexp x + 53)" by (simp add: power_int_add)
  finally show ?thesis using assms by (simp add: fl_def)
qed

lemma fl_lower_binade:
  assumes "0 < y" and "- 1074 < fexp y"
  shows "2 powi (fexp y + 52) \<le> fl y"
proof -
  let ?P = "(2::rat) powi fexp y"
  have P: "0 < ?P" by simp
  from assms have e: "fexp y = ilog2 y - 52" by (simp add: fexp_def max_def split: if_splits)
  have "2 powi 52 * ?P = 2 powi (ilog2 y)" by (simp add: e power_int_diff)
  also have "\<dots> \<le> y" using assms(1) by (rule ilog2_lower)
  finally have "of_int (2 ^ 52) \<le> y / ?P" using P by (simp add: field_simps)
  then have "2 ^ 52 \<le> rne (y / ?P)" by (rule rne_ge)
  then have "(of_int (2 ^ 52) :: rat) \<le> of_int (rne (y / ?P))" by (simp only: of_int_le_iff)
  then have le: "of_int (2 ^ 52) * ?P \<le> of_int (rne (y / ?P)) * ?P"
    using P by (simp only: mult_le_cancel_right_pos)
  have "2 powi (fexp y + 52) = of_int (2 ^ 52) * ?P" by (simp add: power_int_add)
  also note le
  also have "of_int (rne (y / ?P)) * ?P = fl y" using assms(1) by (simp add: fl_def)
  finally show ?thesis .
qed

lemma fl_mono_pos:
  assumes "0 < x" and "x \<le> y"
  shows "fl x \<le> fl y"
proof (cases "fexp x = fexp y")
  case True
  let ?P = "(2::rat) powi fexp y"
  have P: "0 < ?P" by simp
  from assms have "x / ?P \<le> y / ?P" using P by (simp add: divide_right_mono)
  then have "rne (x / ?P) \<le> rne (y / ?P)" by (rule rne_mono)
  then have "(of_int (rne (x / ?P)) :: rat) \<le> of_int (rne (y / ?P))" by (simp only: of_int_le_iff)
  then have "of_int (rne (x / ?P)) * ?P \<le> of_int (rne (y / ?P)) * ?P"
    using P by (simp only: mult_le_cancel_right_pos)
  then show ?thesis using assms True by (simp add: fl_def)
next
  case False
  with fexp_mono [OF assms] have lt: "fexp x < fexp y" by simp
  have "- 1074 \<le> fexp x" by (simp add: fexp_def)
  with lt have "- 1074 < fexp y" by simp
  have "fl x \<le> 2 powi (fexp x + 53)" using assms(1) by (rule fl_upper_binade)
  also have "\<dots> \<le> 2 powi (fexp y + 52)"
    using lt by (intro power_int_increasing) simp_all
  also have "\<dots> \<le> fl y" using assms \<open>- 1074 < fexp y\<close> by (intro fl_lower_binade) simp_all
  finally show ?thesis .
qed

lemma fl_mono:
  assumes "x \<le> y" and "0 \<le> y"
  shows "fl x \<le> fl y"
proof (cases "0 < x")
  case True
  then show ?thesis using assms(1) by (rule fl_mono_pos)
next
  case False
  then have "fl x \<le> 0" by (intro fl_nonpos) simp
  also have "0 \<le> fl y" using assms(2) by (rule fl_nonneg)
  finally show ?thesis .
qed

lemma ilog2_unique:
  assumes "0 < x" and "2 powi k \<le> x" and "x < 2 powi (k + 1)"
  shows "ilog2 x = k"
proof (rule antisym)
  show "ilog2 x \<le> k"
  proof (rule ccontr)
    assume "\<not> ilog2 x \<le> k"
    then have "k + 1 \<le> ilog2 x" by simp
    then have "(2::rat) powi (k + 1) \<le> 2 powi (ilog2 x)"
      by (rule power_int_increasing) simp
    also have "\<dots> \<le> x" using assms(1) by (rule ilog2_lower)
    finally show False using assms(3) by simp
  qed
  show "k \<le> ilog2 x"
  proof (rule ccontr)
    assume "\<not> k \<le> ilog2 x"
    then have "ilog2 x + 1 \<le> k" by simp
    then have "(2::rat) powi (ilog2 x + 1) \<le> 2 powi k"
      by (rule power_int_increasing) simp
    also note assms(2)
    finally show False using ilog2_upper [OF assms(1)] by simp
  qed
qed

lemma rne_error: "\<bar>of_int (rne x) - x\<bar> \<le> 1 / 2"
proof -
  have "of_int \<lfloor>x\<rfloor> \<le> x" and "x < of_int \<lfloor>x\<rfloor> + 1" by linarith+
  then show ?thesis by (auto simp: rne_def Let_def abs_le_iff)
qed

lemma fl_error: "\<bar>fl x - x\<bar> \<le> 2 powi (fexp x) / 2"
proof (cases "x = 0")
  case True
  then show ?thesis by (simp add: fl_def)
next
  case False
  let ?P = "(2::rat) powi fexp x"
  have P: "0 < ?P" by simp
  have "fl x - x = (of_int (rne (x / ?P)) - x / ?P) * ?P"
    using False P by (simp add: fl_def field_simps)
  then have "\<bar>fl x - x\<bar> = \<bar>of_int (rne (x / ?P)) - x / ?P\<bar> * ?P"
    using P by (simp add: abs_mult)
  also have "\<dots> \<le> (1 / 2) * ?P"
    using rne_error [of "x / ?P"] P by (simp only: mult_le_cancel_right_pos)
  finally show ?thesis by simp
qed

lemma fexp_le:
  assumes "0 < x" and "x < 2 powi (k + 1)" and "- 1022 \<le> k"
  shows "fexp x \<le> k - 52"
proof -
  have "ilog2 x \<le> k"
  proof (rule ccontr)
    assume "\<not> ilog2 x \<le> k"
    then have "k + 1 \<le> ilog2 x" by simp
    then have "(2::rat) powi (k + 1) \<le> 2 powi (ilog2 x)"
      by (rule power_int_increasing) simp
    also have "\<dots> \<le> x" using assms(1) by (rule ilog2_lower)
    finally show False using assms(2) by simp
  qed
  then show ?thesis using assms by (simp add: fexp_def)
qed

lemma fl_error_128:
  assumes "0 \<le> x" and "x < 128"
  shows "\<bar>fl x - x\<bar> \<le> 1 / 2 ^ 47"
proof (cases "x = 0")
  case True
  then show ?thesis by (simp add: fl_def)
next
  case False
  with assms have pos: "0 < x" by simp
  have "x < 2 powi (6 + 1)" using assms by simp
  with pos have "fexp x \<le> 6 - 52" by (rule fexp_le) simp
  then have "(2::rat) powi (fexp x) \<le> 2 powi (- 46)"
    by (intro power_int_increasing) simp_all
  then have "(2::rat) powi (fexp x) / 2 \<le> 2 powi (- 46) / 2" by simp
  also have "\<dots> = 1 / 2 ^ 47" by (simp add: power_int_minus_divide)
  finally show ?thesis using fl_error [of x] by linarith
qed

lemma fl_binade:
  assumes "2 powi k \<le> x" and "x < 2 powi (k + 1)" and "- 1022 \<le> k"
  shows "fl x = of_int (rne (x / 2 powi (k - 52))) * 2 powi (k - 52)"
proof -
  have "0 < (2::rat) powi k" by simp
  with assms(1) have pos: "0 < x" by linarith
  then have "ilog2 x = k" using assms(1,2) by (rule ilog2_unique)
  then have "fexp x = k - 52" using pos assms(3) by (simp add: fexp_def)
  then show ?thesis using pos by (simp add: fl_def)
qed

lemma fl_of_int_exact:
  assumes "0 \<le> n" and "n < 2 ^ 53"
  shows "fl (of_int n) = of_int n"
proof (cases "n = 0")
  case True
  then show ?thesis by (simp add: fl_def)
next
  case False
  with assms have pos: "0 < (of_int n :: rat)" by simp
  let ?e = "fexp (of_int n)"
  have "(of_int n :: rat) < of_int (2 ^ 53)" using assms(2) by (simp only: of_int_less_iff)
  then have "(of_int n :: rat) < 2 powi (52 + 1)" by simp
  with pos have "?e \<le> 52 - 52" by (rule fexp_le) simp
  then have e: "?e \<le> 0" by simp
  then have "(2::rat) powi ?e = 1 / 2 ^ nat (- ?e)"
    by (simp add: power_int_def field_simps)
  then have q: "of_int n / (2::rat) powi ?e = of_int (n * 2 ^ nat (- ?e))" by simp
  have "fl (of_int n) = of_int (rne (of_int n / 2 powi ?e)) * 2 powi ?e"
    using pos by (simp add: fl_def)
  also have "\<dots> = of_int (n * 2 ^ nat (- ?e)) * 2 powi ?e"
    by (simp only: q rne_of_int)
  also have "\<dots> = of_int n" using e by (simp add: power_int_def field_simps)
  finally show ?thesis .
qed

lemma SCALE_val: "SCALE = 172637985715869 / 2251799813685248"
  by code_simp

lemma rne_unique:
  assumes "of_int n - 1 / 2 < x" and "x < of_int n + 1 / 2"
  shows "rne x = n"
proof (cases "of_int n \<le> x")
  case True
  with assms have "\<lfloor>x\<rfloor> = n" by (intro floor_unique) linarith+
  then show ?thesis using assms by (simp add: rne_def Let_def)
next
  case False
  with assms have "\<lfloor>x\<rfloor> = n - 1" by (intro floor_unique) (simp, linarith)
  then show ?thesis using assms False by (simp add: rne_def Let_def)
qed

lemma rne_tie_53: "rne (2 ^ 53 - 1 / 2) = 2 ^ 53"
  by code_simp

lemma fl_largest: "fl (of_int (FLT_OVERFLOW - 1)) < 2 ^ 1024"
proof -
  let ?x = "2 ^ 1024 - 2 ^ 970 - 1 :: rat"
  have x: "of_int (FLT_OVERFLOW - 1) = ?x" by (simp add: FLT_OVERFLOW_def)
  have "fl ?x = of_int (rne (?x / 2 powi (1023 - 52))) * 2 powi (1023 - 52)"
    by (rule fl_binade) simp_all
  moreover have "rne (?x / 2 powi (1023 - 52)) = 2 ^ 53 - 1"
    by (rule rne_unique) simp_all
  ultimately have "fl ?x < 2 ^ 1024" by simp
  then show ?thesis by (simp only: x)
qed

lemma fl_overflow: "2 ^ 1024 \<le> fl (of_int FLT_OVERFLOW)"
proof -
  let ?x = "2 ^ 1024 - 2 ^ 970 :: rat"
  have x: "of_int FLT_OVERFLOW = ?x" by (simp add: FLT_OVERFLOW_def)
  have "fl ?x = of_int (rne (?x / 2 powi (1023 - 52))) * 2 powi (1023 - 52)"
    by (rule fl_binade) simp_all
  moreover have "rne (?x / 2 powi (1023 - 52)) = 2 ^ 53"
  proof -
    have "?x / 2 powi (1023 - 52) = 2 ^ 53 - 1 / 2" by simp
    then show ?thesis by (simp only: rne_tie_53)
  qed
  ultimately have "fl ?x = of_int (2 ^ 53) * 2 powi (1023 - 52)" by (simp only:)
  then have "2 ^ 1024 \<le> fl ?x" by simp
  then show ?thesis by (simp only: x)
qed

lemma float_of_int_ok:
  assumes "0 \<le> n" and "n < FLT_OVERFLOW"
  shows "float_of_int n = Inr (fl (of_int n))"
proof -
  from assms(2) have "n \<le> FLT_OVERFLOW - 1" by simp
  then have le: "(of_int n :: rat) \<le> of_int (FLT_OVERFLOW - 1)" by (simp only: of_int_le_iff)
  have "(0::rat) \<le> of_int (FLT_OVERFLOW - 1)" by (simp add: FLT_OVERFLOW_def)
  with le have "fl (of_int n) \<le> fl (of_int (FLT_OVERFLOW - 1))" by (rule fl_mono)
  also note fl_largest
  finally have "fl (of_int n) < 2 ^ 1024" .
  moreover have "0 \<le> fl (of_int n)" using assms(1) by (intro fl_nonneg) simp
  ultimately show ?thesis by (simp add: float_of_int_def Let_def)
qed

lemma float_of_int_overflow:
  assumes "FLT_OVERFLOW \<le> n"
  shows "float_of_int n = Inl OverflowError"
proof -
  from assms have le: "(of_int FLT_OVERFLOW :: rat) \<le> of_int n" by (simp only: of_int_le_iff)
  have "(0::rat) < of_int FLT_OVERFLOW" by (simp add: FLT_OVERFLOW_def)
  then have "fl (of_int FLT_OVERFLOW) \<le> fl (of_int n)" using le by (rule fl_mono_pos)
  with fl_overflow have "2 ^ 1024 \<le> fl (of_int n)" by (rule order_trans)
  then show ?thesis by (simp add: float_of_int_def Let_def)
qed

lemma fl_SCALE_900: "fl (SCALE * 900) = 69"
  by code_simp

lemma fl_S_MIN: "fl (of_int S_MIN) = 30"
  using fl_of_int_exact [of S_MIN] by (simp add: S_MIN_def)

lemma fl_S_MAX: "fl (of_int S_MAX) = 99"
  using fl_of_int_exact [of S_MAX] by (simp add: S_MAX_def)

lemma fl_900: "fl 900 = 900"
  using fl_of_int_exact [of 900] by simp

lemma SCALE_pos: "0 < SCALE"
  by (simp add: SCALE_val)

lemma min_speed_cold: "t < T_MIN \<Longrightarrow> min_speed t = Inr S_MIN"
  by (simp add: min_speed_def)

lemma max_speed_hot: "T_MAX < t \<Longrightarrow> max_speed t = Inr S_MAX"
  by (simp add: max_speed_def)

lemma sq_ge_900:
  fixes a :: int
  assumes "30 \<le> \<bar>a\<bar>"
  shows "900 \<le> a ^ 2"
proof -
  have "(30::int) ^ 2 \<le> \<bar>a\<bar> ^ 2" using assms by (intro power_mono) simp_all
  then show ?thesis by simp
qed

lemma fmul_SCALE_ge:
  assumes "900 \<le> n" and "n < FLT_OVERFLOW"
  shows "float_of_int n = Inr (fl (of_int n))" and "69 \<le> fmul SCALE (fl (of_int n))"
proof -
  show "float_of_int n = Inr (fl (of_int n))" using assms by (intro float_of_int_ok) simp_all
  have "(900::rat) \<le> of_int n" using assms(1) by simp
  then have "fl 900 \<le> fl (of_int n)" by (intro fl_mono_pos) simp_all
  then have "900 \<le> fl (of_int n)" by (simp only: fl_900)
  then have "SCALE * 900 \<le> SCALE * fl (of_int n)" using SCALE_pos by simp
  moreover have "0 < SCALE * 900" using SCALE_pos by simp
  ultimately have "fl (SCALE * 900) \<le> fl (SCALE * fl (of_int n))" by (intro fl_mono_pos)
  then show "69 \<le> fmul SCALE (fl (of_int n))" by (simp only: fl_SCALE_900 fmul_def)
qed

lemma min_speed_hot:
  assumes "T_MAX \<le> t" and "(t - T_MIN) ^ 2 < FLT_OVERFLOW"
  shows "min_speed t = Inr S_MAX"
proof -
  let ?n = "(t - T_MIN) ^ 2"
  let ?p = "fmul SCALE (fl (of_int ?n))"
  have "900 \<le> ?n" using assms(1) by (intro sq_ge_900) (simp add: T_MIN_def T_MAX_def)
  then have conv: "float_of_int ?n = Inr (fl (of_int ?n))" and p: "69 \<le> ?p"
    using assms(2) by (rule fmul_SCALE_ge)+
  from p have "(99::rat) \<le> ?p + 30" by simp
  then have "fl 99 \<le> fl (?p + 30)" by (intro fl_mono_pos) simp_all
  moreover have "fl 99 = 99" using fl_S_MAX by (simp add: S_MAX_def)
  ultimately have "99 \<le> fadd ?p (fl (of_int S_MIN))" by (simp add: fadd_def fl_S_MIN)
  then have "py_int (py_min (fadd ?p (fl (of_int S_MIN))) (of_int S_MAX)) = S_MAX"
    by (auto simp: py_min_def py_int_def S_MAX_def)
  then show ?thesis using assms(1) conv by (simp add: min_speed_def T_MIN_def T_MAX_def)
qed

lemma max_speed_cold:
  assumes "t \<le> T_MIN" and "(t - T_MAX) ^ 2 < FLT_OVERFLOW"
  shows "max_speed t = Inr S_MIN"
proof -
  let ?n = "(t - T_MAX) ^ 2"
  let ?p = "fmul SCALE (fl (of_int ?n))"
  have "900 \<le> ?n" using assms(1) by (intro sq_ge_900) (simp add: T_MIN_def T_MAX_def)
  then have conv: "float_of_int ?n = Inr (fl (of_int ?n))" and p: "69 \<le> ?p"
    using assms(2) by (rule fmul_SCALE_ge)+
  from p have "99 - ?p \<le> (30::rat)" by simp
  then have "fl (99 - ?p) \<le> fl 30" by (rule fl_mono) simp
  moreover have "fl 30 = 30" using fl_S_MIN by (simp add: S_MIN_def)
  ultimately have "fsub (fl (of_int S_MAX)) ?p \<le> 30" by (simp add: fsub_def fl_S_MAX)
  then have "py_int (py_max (fsub (fl (of_int S_MAX)) ?p) (of_int S_MIN)) = S_MIN"
    by (auto simp: py_max_def py_int_def S_MIN_def)
  then show ?thesis using assms(1) conv by (simp add: max_speed_def T_MIN_def T_MAX_def)
qed

lemma fmul_SCALE_approx:
  assumes "0 \<le> d" and "d \<le> 900"
  shows "\<bar>fmul SCALE (of_int d) - 23 * of_int d / 300\<bar> \<le> 2 / 2 ^ 47"
proof -
  let ?x = "SCALE * of_int d"
  have d0: "(0::rat) \<le> of_int d" and d900: "(of_int d :: rat) \<le> 900" using assms by simp_all
  have "0 \<le> ?x" using d0 SCALE_pos by simp
  moreover have "?x < 128"
  proof -
    have "?x \<le> SCALE * 900" using d900 SCALE_pos by simp
    also have "\<dots> < 128" by (simp add: SCALE_val)
    finally show ?thesis .
  qed
  ultimately have e1: "\<bar>fl ?x - ?x\<bar> \<le> 1 / 2 ^ 47" by (rule fl_error_128)
  have gap: "23 / 300 - SCALE = 1 / 168884986026393600" by (simp add: SCALE_val)
  have "23 * of_int d / 300 - ?x = of_int d * (23 / 300 - SCALE)" by (simp add: algebra_simps)
  also have "\<dots> = of_int d / 168884986026393600" by (simp add: gap)
  finally have eq: "23 * of_int d / 300 - ?x = of_int d / 168884986026393600" .
  have "0 \<le> of_int d / (168884986026393600::rat)" using d0 by simp
  then have g0: "0 \<le> 23 * of_int d / 300 - ?x" by (simp only: eq)
  have "of_int d / (168884986026393600::rat) \<le> 1 / 2 ^ 47" using d900 by simp
  then have g1: "23 * of_int d / 300 - ?x \<le> 1 / 2 ^ 47" by (simp only: eq)
  from e1 g0 g1 have "\<bar>fl ?x - 23 * of_int d / 300\<bar> \<le> 1 / 2 ^ 47 + 1 / 2 ^ 47" by linarith
  also have "\<dots> = 2 / 2 ^ 47" by simp
  finally show ?thesis by (simp only: fmul_def)
qed

lemma fadd_30_approx:
  assumes "0 \<le> d" and "d \<le> 900"
  shows "\<bar>fadd (fmul SCALE (of_int d)) 30 - (23 * of_int d / 300 + 30)\<bar> \<le> 3 / 2 ^ 47"
proof -
  let ?p = "fmul SCALE (of_int d)"
  have d0: "(0::rat) \<le> of_int d" and d900: "(of_int d :: rat) \<le> 900" using assms by simp_all
  have p: "\<bar>?p - 23 * of_int d / 300\<bar> \<le> 2 / 2 ^ 47" using assms by (rule fmul_SCALE_approx)
  have eps: "(2::rat) / 2 ^ 47 \<le> 1" by simp
  from p have "23 * of_int d / 300 - 2 / 2 ^ 47 \<le> ?p" and "?p \<le> 23 * of_int d / 300 + 2 / 2 ^ 47"
    unfolding abs_le_iff by linarith+
  with eps d0 d900 have "0 \<le> ?p + 30" and "?p + 30 < 128" by linarith+
  then have "\<bar>fl (?p + 30) - (?p + 30)\<bar> \<le> 1 / 2 ^ 47" by (rule fl_error_128)
  with p have "\<bar>fl (?p + 30) - (23 * of_int d / 300 + 30)\<bar> \<le> 1 / 2 ^ 47 + 2 / 2 ^ 47"
    by linarith
  also have "\<dots> = 3 / 2 ^ 47" by simp
  finally show ?thesis by (simp only: fadd_def)
qed

lemma fsub_99_approx:
  assumes "0 \<le> d" and "d \<le> 900"
  shows "\<bar>fsub 99 (fmul SCALE (of_int d)) - (99 - 23 * of_int d / 300)\<bar> \<le> 3 / 2 ^ 47"
proof -
  let ?p = "fmul SCALE (of_int d)"
  have d0: "(0::rat) \<le> of_int d" and d900: "(of_int d :: rat) \<le> 900" using assms by simp_all
  have p: "\<bar>?p - 23 * of_int d / 300\<bar> \<le> 2 / 2 ^ 47" using assms by (rule fmul_SCALE_approx)
  have eps: "(2::rat) / 2 ^ 47 \<le> 1" by simp
  from p have "23 * of_int d / 300 - 2 / 2 ^ 47 \<le> ?p" and "?p \<le> 23 * of_int d / 300 + 2 / 2 ^ 47"
    unfolding abs_le_iff by linarith+
  with eps d0 d900 have "0 \<le> 99 - ?p" and "99 - ?p < 128" by linarith+
  then have "\<bar>fl (99 - ?p) - (99 - ?p)\<bar> \<le> 1 / 2 ^ 47" by (rule fl_error_128)
  with p have "\<bar>fl (99 - ?p) - (99 - 23 * of_int d / 300)\<bar> \<le> 1 / 2 ^ 47 + 2 / 2 ^ 47"
    by linarith
  also have "\<dots> = 3 / 2 ^ 47" by simp
  finally show ?thesis by (simp only: fsub_def)
qed

lemma min_curve_fraction:
  "\<forall>j \<in> set [1..29].
     of_int (30 + 69 * j ^ 2 div 900) + 1 / 300 \<le> (23 * of_int (j ^ 2) / 300 + 30 :: rat) \<and>
     (23 * of_int (j ^ 2) / 300 + 30 :: rat) \<le> of_int (30 + 69 * j ^ 2 div 900) + 299 / 300 \<and>
     30 + 69 * j ^ 2 div 900 \<le> 98"
  by code_simp

lemma max_curve_fraction:
  "\<forall>j \<in> set [1..29].
     of_int (99 + (- (69 * j ^ 2)) div 900) + 1 / 300 \<le> (99 - 23 * of_int (j ^ 2) / 300 :: rat) \<and>
     (99 - 23 * of_int (j ^ 2) / 300 :: rat) \<le> of_int (99 + (- (69 * j ^ 2)) div 900) + 299 / 300 \<and>
     30 \<le> 99 + (- (69 * j ^ 2)) div 900"
  by code_simp

lemma fl_30: "fl 30 = 30"
  using fl_S_MIN by (simp add: S_MIN_def)

lemma fl_99: "fl 99 = 99"
  using fl_S_MAX by (simp add: S_MAX_def)

lemma float_of_int_small:
  assumes "0 \<le> d" and "d \<le> 900"
  shows "float_of_int d = Inr (of_int d)"
proof -
  have "d < FLT_OVERFLOW" using assms(2) by (simp add: FLT_OVERFLOW_def)
  with assms(1) have "float_of_int d = Inr (fl (of_int d))" by (rule float_of_int_ok)
  moreover have "fl (of_int d) = of_int d" using assms by (intro fl_of_int_exact) simp_all
  ultimately show ?thesis by simp
qed

lemma min_curve_value:
  assumes "0 \<le> j" and "j \<le> 30"
  shows "py_int (py_min (fadd (fmul SCALE (of_int (j ^ 2))) 30) 99) = 30 + 69 * j ^ 2 div 900"
proof -
  consider "j = 0" | "j = 30" | "1 \<le> j \<and> j \<le> 29" using assms by linarith
  then show ?thesis
  proof cases
    case 1
    have "fl 30 = 30" using fl_S_MIN by (simp add: S_MIN_def)
    then show ?thesis using 1 by (simp add: fmul_def fadd_def fl_def [of 0] py_min_def py_int_def)
  next
    case 2
    have "fl 99 = 99" using fl_S_MAX by (simp add: S_MAX_def)
    then show ?thesis using 2 by (simp add: fmul_def fadd_def fl_SCALE_900 py_min_def py_int_def)
  next
    case 3
    let ?k = "30 + 69 * j ^ 2 div 900"
    let ?E = "23 * of_int (j ^ 2) / 300 + 30 :: rat"
    let ?q = "fadd (fmul SCALE (of_int (j ^ 2))) 30"
    from 3 have "j \<in> set [1..29]" by simp
    with min_curve_fraction
    have lo: "of_int ?k + 1 / 300 \<le> ?E" and hi: "?E \<le> of_int ?k + 299 / 300" and k: "?k \<le> 98"
      by blast+
    have "j ^ 2 \<le> 30 ^ 2" using assms by (intro power_mono) simp_all
    then have "0 \<le> j ^ 2" and "j ^ 2 \<le> 900" by simp_all
    then have "\<bar>?q - ?E\<bar> \<le> 3 / 2 ^ 47" by (rule fadd_30_approx)
    moreover have "(3::rat) / 2 ^ 47 < 1 / 300" by simp
    ultimately have ql: "of_int ?k \<le> ?q" and qu: "?q < of_int ?k + 1"
      using lo hi by linarith+
    then have fl: "\<lfloor>?q\<rfloor> = ?k" by (intro floor_unique)
    have "(of_int ?k :: rat) + 1 \<le> of_int 98 + 1" using k by (simp only: of_int_le_iff add_le_cancel_right)
    with qu have "?q < 99" by simp
    moreover have "0 \<le> 69 * j ^ 2 div 900" by (simp add: pos_imp_zdiv_nonneg_iff)
    then have "(0::rat) \<le> of_int ?k" by simp
    with ql have "0 \<le> ?q" by linarith
    ultimately show ?thesis using fl by (simp add: py_min_def py_int_def)
  qed
qed

lemma max_curve_value:
  assumes "0 \<le> j" and "j \<le> 30"
  shows "py_int (py_max (fsub 99 (fmul SCALE (of_int (j ^ 2)))) 30) = 99 + (- (69 * j ^ 2)) div 900"
proof -
  consider "j = 0" | "j = 30" | "1 \<le> j \<and> j \<le> 29" using assms by linarith
  then show ?thesis
  proof cases
    case 1
    have "fl 99 = 99" using fl_S_MAX by (simp add: S_MAX_def)
    then show ?thesis using 1 by (simp add: fmul_def fsub_def fl_def [of 0] py_max_def py_int_def)
  next
    case 2
    have "fl 30 = 30" using fl_S_MIN by (simp add: S_MIN_def)
    then show ?thesis using 2 by (simp add: fmul_def fsub_def fl_SCALE_900 py_max_def py_int_def)
  next
    case 3
    let ?k = "99 + (- (69 * j ^ 2)) div 900"
    let ?E = "99 - 23 * of_int (j ^ 2) / 300 :: rat"
    let ?q = "fsub 99 (fmul SCALE (of_int (j ^ 2)))"
    from 3 have "j \<in> set [1..29]" by simp
    with max_curve_fraction
    have lo: "of_int ?k + 1 / 300 \<le> ?E" and hi: "?E \<le> of_int ?k + 299 / 300" and k: "30 \<le> ?k"
      by blast+
    have "j ^ 2 \<le> 30 ^ 2" using assms by (intro power_mono) simp_all
    then have "0 \<le> j ^ 2" and "j ^ 2 \<le> 900" by simp_all
    then have "\<bar>?q - ?E\<bar> \<le> 3 / 2 ^ 47" by (rule fsub_99_approx)
    moreover have "(3::rat) / 2 ^ 47 < 1 / 300" by simp
    ultimately have ql: "of_int ?k \<le> ?q" and qu: "?q < of_int ?k + 1"
      using lo hi by linarith+
    then have fl: "\<lfloor>?q\<rfloor> = ?k" by (intro floor_unique)
    have "(of_int 30 :: rat) \<le> of_int ?k" using k by (simp only: of_int_le_iff)
    with ql have "30 \<le> ?q" by simp
    then show ?thesis using fl by (simp add: py_max_def py_int_def)
  qed
qed

lemma min_speed_mid:
  assumes "T_MIN \<le> t" and "t \<le> T_MAX"
  shows "min_speed t = Inr (S_MIN + 69 * (t - T_MIN) ^ 2 div 900)"
proof -
  let ?j = "t - T_MIN"
  have j: "0 \<le> ?j" "?j \<le> 30" using assms by (simp_all add: T_MIN_def T_MAX_def)
  then have "?j ^ 2 \<le> 30 ^ 2" by (intro power_mono)
  then have "float_of_int (?j ^ 2) = Inr (of_int (?j ^ 2))" by (intro float_of_int_small) simp_all
  then show ?thesis
    using assms(1) min_curve_value [OF j] by (simp add: min_speed_def fl_30 S_MIN_def S_MAX_def)
qed

lemma max_speed_mid:
  assumes "T_MIN \<le> t" and "t \<le> T_MAX"
  shows "max_speed t = Inr (S_MAX + (- (69 * (t - T_MAX) ^ 2)) div 900)"
proof -
  let ?j = "T_MAX - t"
  have j: "0 \<le> ?j" "?j \<le> 30" using assms by (simp_all add: T_MIN_def T_MAX_def)
  have sq: "(t - T_MAX) ^ 2 = ?j ^ 2" by (rule power2_commute)
  from j have "?j ^ 2 \<le> 30 ^ 2" by (intro power_mono)
  then have "float_of_int (?j ^ 2) = Inr (of_int (?j ^ 2))" by (intro float_of_int_small) simp_all
  then show ?thesis
    using assms(2) max_curve_value [OF j]
    by (simp add: max_speed_def sq fl_99 S_MIN_def S_MAX_def)
qed

lemma floor_min_rat: "\<lfloor>min x y :: rat\<rfloor> = min \<lfloor>x\<rfloor> \<lfloor>y\<rfloor>"
  using floor_mono [of x y] floor_mono [of y x] by (auto simp: min_def)

lemma floor_max_rat: "\<lfloor>max x y :: rat\<rfloor> = max \<lfloor>x\<rfloor> \<lfloor>y\<rfloor>"
  using floor_mono [of x y] floor_mono [of y x] by (auto simp: max_def)

lemma min_speed_spec_closed:
  "min_speed_spec t =
     (if t < T_MIN then S_MIN else min (S_MIN + 69 * (t - T_MIN) ^ 2 div 900) S_MAX)"
proof (cases "t < T_MIN")
  case True
  then show ?thesis by (simp add: min_speed_spec_def)
next
  case False
  let ?n = "(t - T_MIN) ^ 2"
  let ?x = "of_int (69 * ?n) / of_int 900 + of_int 30 :: rat"
  have x: "SCALE_spec * (of_int (t - T_MIN)) ^ 2 + of_int S_MIN = ?x"
    by (simp add: SCALE_spec_def S_MIN_def S_MAX_def T_MIN_def T_MAX_def)
  have "0 \<le> ?n" by simp
  then have "0 \<le> ?x" by simp
  then have "0 \<le> min ?x (of_int S_MAX)" by (simp add: S_MAX_def)
  then have p: "py_int (min ?x (of_int S_MAX)) = \<lfloor>min ?x (of_int S_MAX)\<rfloor>" by (simp add: py_int_def)
  have "min_speed_spec t = py_int (min ?x (of_int S_MAX))"
    using False by (simp only: min_speed_spec_def if_False x)
  also note p
  also have "\<lfloor>min ?x (of_int S_MAX)\<rfloor> = min \<lfloor>?x\<rfloor> S_MAX" by (simp only: floor_min_rat floor_of_int)
  also have "\<lfloor>?x\<rfloor> = 69 * ?n div 900 + 30"
    by (simp only: floor_add_int [symmetric] floor_divide_of_int_eq)
  also have "69 * ?n div 900 + 30 = S_MIN + 69 * ?n div 900" by (simp only: S_MIN_def add.commute)
  finally show ?thesis using False by (simp only: if_False)
qed

lemma max_speed_spec_closed:
  "max_speed_spec t =
     (if T_MAX < t then S_MAX else max (S_MAX + (- (69 * (t - T_MAX) ^ 2)) div 900) S_MIN)"
proof (cases "T_MAX < t")
  case True
  then show ?thesis by (simp add: max_speed_spec_def)
next
  case False
  let ?n = "(t - T_MAX) ^ 2"
  let ?x = "of_int (- (69 * ?n)) / of_int 900 + of_int 99 :: rat"
  have x: "of_int S_MAX - SCALE_spec * (of_int (t - T_MAX)) ^ 2 = ?x"
    by (simp add: SCALE_spec_def S_MIN_def S_MAX_def T_MIN_def T_MAX_def)
  have "0 \<le> max ?x (of_int S_MIN)" by (simp add: S_MIN_def max_def)
  then have p: "py_int (max ?x (of_int S_MIN)) = \<lfloor>max ?x (of_int S_MIN)\<rfloor>" by (simp add: py_int_def)
  have "max_speed_spec t = py_int (max ?x (of_int S_MIN))"
    using False by (simp only: max_speed_spec_def if_False x)
  also note p
  also have "\<lfloor>max ?x (of_int S_MIN)\<rfloor> = max \<lfloor>?x\<rfloor> S_MIN" by (simp only: floor_max_rat floor_of_int)
  also have "\<lfloor>?x\<rfloor> = (- (69 * ?n)) div 900 + 99"
    by (simp only: floor_add_int [symmetric] floor_divide_of_int_eq)
  also have "(- (69 * ?n)) div 900 + 99 = S_MAX + (- (69 * ?n)) div 900" by (simp only: S_MAX_def add.commute)
  finally show ?thesis using False by (simp only: if_False)
qed

lemma min_speed_refines:
  assumes "float_range t"
  shows "min_speed t = Inr (min_speed_spec t)"
proof -
  consider "t < T_MIN" | "T_MIN \<le> t \<and> t \<le> T_MAX" | "T_MAX < t" by linarith
  then show ?thesis
  proof cases
    case 1
    then show ?thesis by (simp add: min_speed_cold min_speed_spec_closed)
  next
    case 2
    then have "(t - T_MIN) ^ 2 \<le> 30 ^ 2" by (intro power_mono) (simp_all add: T_MIN_def T_MAX_def)
    then have "69 * (t - T_MIN) ^ 2 div 900 \<le> 69 * 900 div 900" by (intro zdiv_mono1) simp_all
    then have "min (S_MIN + 69 * (t - T_MIN) ^ 2 div 900) S_MAX = S_MIN + 69 * (t - T_MIN) ^ 2 div 900"
      by (simp add: S_MIN_def S_MAX_def)
    then show ?thesis using 2 by (simp add: min_speed_mid min_speed_spec_closed)
  next
    case 3
    then have "900 \<le> (t - T_MIN) ^ 2" by (intro sq_ge_900) (simp add: T_MIN_def T_MAX_def)
    then have "69 * 900 div 900 \<le> 69 * (t - T_MIN) ^ 2 div 900" by (intro zdiv_mono1) simp_all
    then have "min (S_MIN + 69 * (t - T_MIN) ^ 2 div 900) S_MAX = S_MAX"
      by (simp add: S_MIN_def S_MAX_def)
    moreover have "min_speed t = Inr S_MAX"
      using 3 assms by (intro min_speed_hot) (simp_all add: float_range_def T_MIN_def T_MAX_def)
    ultimately show ?thesis using 3 by (simp add: min_speed_spec_closed T_MIN_def T_MAX_def)
  qed
qed

lemma max_speed_refines:
  assumes "float_range t"
  shows "max_speed t = Inr (max_speed_spec t)"
proof -
  consider "t < T_MIN" | "T_MIN \<le> t \<and> t \<le> T_MAX" | "T_MAX < t" by linarith
  then show ?thesis
  proof cases
    case 1
    then have "900 \<le> (t - T_MAX) ^ 2" by (intro sq_ge_900) (simp add: T_MIN_def T_MAX_def)
    then have "- (69 * (t - T_MAX) ^ 2) div 900 \<le> - (69 * 900) div 900" by (intro zdiv_mono1) simp_all
    then have "max (S_MAX + (- (69 * (t - T_MAX) ^ 2)) div 900) S_MIN = S_MIN"
      by (simp add: S_MIN_def S_MAX_def)
    moreover have "max_speed t = Inr S_MIN"
      using 1 assms by (intro max_speed_cold) (simp_all add: float_range_def T_MIN_def T_MAX_def)
    ultimately show ?thesis using 1 by (simp add: max_speed_spec_closed T_MIN_def T_MAX_def)
  next
    case 2
    then have "(t - T_MAX) ^ 2 = (T_MAX - t) ^ 2" by (simp add: power2_commute)
    moreover from 2 have "(T_MAX - t) ^ 2 \<le> 30 ^ 2" by (intro power_mono) (simp_all add: T_MIN_def T_MAX_def)
    ultimately have "(t - T_MAX) ^ 2 \<le> 900" by simp
    then have "- (69 * 900) div 900 \<le> - (69 * (t - T_MAX) ^ 2) div 900" by (intro zdiv_mono1) simp_all
    then have "max (S_MAX + (- (69 * (t - T_MAX) ^ 2)) div 900) S_MIN = S_MAX + (- (69 * (t - T_MAX) ^ 2)) div 900"
      by (simp add: S_MIN_def S_MAX_def)
    then show ?thesis using 2 by (simp add: max_speed_mid max_speed_spec_closed)
  next
    case 3
    then show ?thesis by (simp add: max_speed_hot max_speed_spec_closed)
  qed
qed

lemma min_speed_spec_bounds: "S_MIN \<le> min_speed_spec t \<and> min_speed_spec t \<le> S_MAX"
proof -
  have "0 \<le> 69 * (t - T_MIN) ^ 2 div 900" by (simp add: pos_imp_zdiv_nonneg_iff)
  then show ?thesis by (simp add: min_speed_spec_closed S_MIN_def S_MAX_def)
qed

lemma max_speed_spec_bounds: "S_MIN \<le> max_speed_spec t \<and> max_speed_spec t \<le> S_MAX"
proof -
  have "- (69 * (t - T_MAX) ^ 2) div 900 \<le> 0 div 900" by (intro zdiv_mono1) simp_all
  then have "- (69 * (t - T_MAX) ^ 2) div 900 \<le> 0" by simp
  then show ?thesis by (simp add: max_speed_spec_closed S_MIN_def S_MAX_def)
qed

lemma band_table:
  "\<forall>j \<in> set [0..30]. 30 + 69 * j ^ 2 div 900 \<le> 99 + (- (69 * (j - 30) ^ 2)) div 900"
  by code_simp

lemma spec_band_nonempty: "min_speed_spec t \<le> max_speed_spec t"
proof -
  consider "t < T_MIN" | "T_MIN \<le> t \<and> t \<le> T_MAX" | "T_MAX < t" by linarith
  then show ?thesis
  proof cases
    case 1
    then have "min_speed_spec t = S_MIN" by (simp add: min_speed_spec_closed)
    then show ?thesis using max_speed_spec_bounds [of t] by simp
  next
    case 2
    then have "t - T_MIN \<in> set [0..30]" by (simp add: T_MIN_def T_MAX_def)
    with band_table
    have "30 + 69 * (t - T_MIN) ^ 2 div 900 \<le> 99 + (- (69 * (t - T_MIN - 30) ^ 2)) div 900"
      by blast
    moreover have "t - T_MIN - 30 = t - T_MAX" by (simp add: T_MIN_def T_MAX_def)
    ultimately have "S_MIN + 69 * (t - T_MIN) ^ 2 div 900 \<le> S_MAX + (- (69 * (t - T_MAX) ^ 2)) div 900"
      by (simp add: S_MIN_def S_MAX_def)
    then show ?thesis using 2 by (simp add: min_speed_spec_closed max_speed_spec_closed)
  next
    case 3
    then have "max_speed_spec t = S_MAX" by (simp add: max_speed_spec_closed)
    then show ?thesis using min_speed_spec_bounds [of t] by simp
  qed
qed

lemma min_speed_spec_mono:
  assumes "t1 \<le> t2"
  shows "min_speed_spec t1 \<le> min_speed_spec t2"
proof (cases "t1 < T_MIN")
  case True
  then have "min_speed_spec t1 = S_MIN" by (simp add: min_speed_spec_closed)
  then show ?thesis using min_speed_spec_bounds [of t2] by simp
next
  case False
  with assms have "(t1 - T_MIN) ^ 2 \<le> (t2 - T_MIN) ^ 2" by (intro power_mono) simp_all
  then have "69 * (t1 - T_MIN) ^ 2 div 900 \<le> 69 * (t2 - T_MIN) ^ 2 div 900"
    by (intro zdiv_mono1) simp_all
  then show ?thesis using False assms by (simp add: min_speed_spec_closed)
qed

lemma max_speed_spec_mono:
  assumes "t1 \<le> t2"
  shows "max_speed_spec t1 \<le> max_speed_spec t2"
proof (cases "T_MAX < t2")
  case True
  then have "max_speed_spec t2 = S_MAX" by (simp add: max_speed_spec_closed)
  then show ?thesis using max_speed_spec_bounds [of t1] by simp
next
  case False
  with assms have "(T_MAX - t2) ^ 2 \<le> (T_MAX - t1) ^ 2" by (intro power_mono) simp_all
  then have "(t2 - T_MAX) ^ 2 \<le> (t1 - T_MAX) ^ 2" by (simp only: power2_commute)
  then have "- (69 * (t1 - T_MAX) ^ 2) div 900 \<le> - (69 * (t2 - T_MAX) ^ 2) div 900"
    by (intro zdiv_mono1) simp_all
  then show ?thesis using False assms by (simp add: max_speed_spec_closed)
qed

lemma target_speed_returns:
  assumes "float_range t"
  shows "target_speed s t =
           Inr (min (max s (min_speed_spec t)) (max_speed_spec t), min_speed_spec t, max_speed_spec t)"
  using assms by (simp add: target_speed_def min_speed_refines max_speed_refines)

lemma target_speed_raises:
  assumes "\<not> float_range t"
  shows "target_speed s t = Inl OverflowError"
proof (cases "T_MIN \<le> t \<and> FLT_OVERFLOW \<le> (t - T_MIN) ^ 2")
  case True
  then have "float_of_int ((t - T_MIN) ^ 2) = Inl OverflowError" by (intro float_of_int_overflow) simp
  then have "min_speed t = Inl OverflowError" using True by (simp add: min_speed_def)
  then show ?thesis by (simp add: target_speed_def)
next
  case False
  with assms have b: "t \<le> T_MAX" "FLT_OVERFLOW \<le> (t - T_MAX) ^ 2"
    by (auto simp: float_range_def)
  have "t < T_MIN"
  proof (rule ccontr)
    assume "\<not> t < T_MIN"
    with b(1) have "(T_MAX - t) ^ 2 \<le> 30 ^ 2" by (intro power_mono) (simp_all add: T_MIN_def T_MAX_def)
    then have "(t - T_MAX) ^ 2 \<le> 900" by (simp add: power2_commute)
    with b(2) show False by (simp add: FLT_OVERFLOW_def)
  qed
  then have "min_speed t = Inr S_MIN" by (rule min_speed_cold)
  moreover have "float_of_int ((t - T_MAX) ^ 2) = Inl OverflowError"
    using b(2) by (rule float_of_int_overflow)
  then have "max_speed t = Inl OverflowError" using b(1) by (simp add: max_speed_def)
  ultimately show ?thesis by (simp add: target_speed_def)
qed

subsection \<open>No float operation of the program overflows\<close>

lemma fl_error_big:
  assumes "\<bar>x\<bar> \<le> 2 ^ 1023"
  shows "\<bar>fl x - x\<bar> \<le> 2 ^ 970"
proof (cases "x = 0")
  case True
  then show ?thesis by (simp add: fl_def)
next
  case False
  then have pos: "0 < \<bar>x\<bar>" by simp
  have "\<bar>x\<bar> < 2 powi (1023 + 1)" using assms by simp
  with pos have "fexp \<bar>x\<bar> \<le> 1023 - 52" by (rule fexp_le) simp
  then have "fexp x \<le> 971" by (simp add: fexp_def)
  then have "(2::rat) powi (fexp x) \<le> 2 powi 971" by (intro power_int_increasing) simp_all
  then have "(2::rat) powi (fexp x) / 2 \<le> 2 powi 971 / 2" by simp
  also have "\<dots> = 2 ^ 970" by simp
  finally show ?thesis using fl_error [of x] by linarith
qed

lemma fl_finite:
  assumes "\<bar>x\<bar> \<le> 2 ^ 1023"
  shows "\<bar>fl x\<bar> < 2 ^ 1024"
proof -
  have "\<bar>fl x\<bar> \<le> \<bar>fl x - x\<bar> + \<bar>x\<bar>" by linarith
  also have "\<dots> \<le> 2 ^ 970 + 2 ^ 1023" using fl_error_big [OF assms] assms by linarith
  also have "\<dots> < (2::rat) ^ 1024" by simp
  finally show ?thesis .
qed

lemma float_ops_finite:
  assumes "float_of_int n = Inr d" and "0 \<le> n"
  shows "\<bar>fmul SCALE d\<bar> < 2 ^ 1024"
    and "\<bar>fadd (fmul SCALE d) (fl (of_int S_MIN))\<bar> < 2 ^ 1024"
    and "\<bar>fsub (fl (of_int S_MAX)) (fmul SCALE d)\<bar> < 2 ^ 1024"
proof -
  from assms(1) have d: "d = fl (of_int n)" "\<bar>d\<bar> < 2 ^ 1024"
    by (auto simp: float_of_int_def Let_def split: if_splits)
  have d0: "0 \<le> d" unfolding d(1) using assms(2) by (intro fl_nonneg) simp
  have s: "0 < SCALE" "SCALE \<le> 1 / 8" by (simp_all add: SCALE_val)
  have "SCALE * d \<le> (1 / 8) * d" using s(2) d0 by (intro mult_right_mono)
  also have "\<dots> \<le> (1 / 8) * 2 ^ 1024" using d(2) d0 by simp
  also have "\<dots> = 2 ^ 1021" by simp
  finally have x: "SCALE * d \<le> 2 ^ 1021" .
  have x0: "0 \<le> SCALE * d" using s(1) d0 by simp
  from x x0 have ax: "\<bar>SCALE * d\<bar> \<le> 2 ^ 1023" by simp
  then show "\<bar>fmul SCALE d\<bar> < 2 ^ 1024" unfolding fmul_def by (rule fl_finite)
  have p0: "0 \<le> fmul SCALE d" unfolding fmul_def using x0 by (rule fl_nonneg)
  have "fmul SCALE d \<le> SCALE * d + 2 ^ 970"
    unfolding fmul_def using fl_error_big [OF ax] by linarith
  also have "\<dots> \<le> 2 ^ 1021 + 2 ^ 970" using x by simp
  finally have p: "fmul SCALE d \<le> 2 ^ 1021 + 2 ^ 970" .
  have "\<bar>fmul SCALE d + 30\<bar> \<le> 2 ^ 1023" using p p0 by simp
  then show "\<bar>fadd (fmul SCALE d) (fl (of_int S_MIN))\<bar> < 2 ^ 1024"
    unfolding fadd_def fl_S_MIN by (rule fl_finite)
  have "\<bar>99 - fmul SCALE d\<bar> \<le> 2 ^ 1023" using p p0 by simp
  then show "\<bar>fsub (fl (of_int S_MAX)) (fmul SCALE d)\<bar> < 2 ^ 1024"
    unfolding fsub_def fl_S_MAX by (rule fl_finite)
qed

subsection \<open>The claims about the fan curve\<close>

text \<open>Every temperature of absolute value at most \<open>2\<^sup>5\<^sup>1\<^sup>1\<close> is in float range.\<close>

lemma float_range_small:
  assumes "\<bar>t\<bar> \<le> 2 ^ 511"
  shows "float_range t"
proof -
  have bound: "(2 ^ 511 + 80 :: int) ^ 2 < FLT_OVERFLOW" by (simp add: FLT_OVERFLOW_def)
  have "\<bar>t - T_MIN\<bar> \<le> 2 ^ 511 + 80" using assms by (simp add: T_MIN_def)
  then have "\<bar>t - T_MIN\<bar> ^ 2 \<le> (2 ^ 511 + 80) ^ 2" by (intro power_mono) simp_all
  with bound have a: "(t - T_MIN) ^ 2 < FLT_OVERFLOW" by simp
  have "\<bar>t - T_MAX\<bar> \<le> 2 ^ 511 + 80" using assms by (simp add: T_MAX_def)
  then have "\<bar>t - T_MAX\<bar> ^ 2 \<le> (2 ^ 511 + 80) ^ 2" by (intro power_mono) simp_all
  with bound have b: "(t - T_MAX) ^ 2 < FLT_OVERFLOW" by simp
  from a b show ?thesis by (simp add: float_range_def)
qed

lemma float_range_65: "float_range 65"
  by (simp add: float_range_def T_MIN_def T_MAX_def FLT_OVERFLOW_def)

lemma min_speed_65: "min_speed 65 = Inr 47"
  using min_speed_mid [of 65] by (simp add: T_MIN_def T_MAX_def S_MIN_def)

lemma max_speed_65: "max_speed 65 = Inr 81"
  using max_speed_mid [of 65] by (simp add: T_MIN_def T_MAX_def S_MAX_def)

lemma not_float_range_hot: "\<not> float_range (2 ^ 512 + 50)"
  by (simp add: float_range_def T_MIN_def T_MAX_def FLT_OVERFLOW_def)

lemma not_float_range_cold: "\<not> float_range (80 - 2 ^ 512)"
  by (simp add: float_range_def T_MIN_def T_MAX_def FLT_OVERFLOW_def)

lemma min_speed_overflow: "min_speed (2 ^ 512 + 50) = Inl OverflowError"
proof -
  have "float_of_int ((2 ^ 512 + 50 - T_MIN) ^ 2) = Inl OverflowError"
    by (rule float_of_int_overflow) (simp add: T_MIN_def FLT_OVERFLOW_def)
  then show ?thesis by (simp add: min_speed_def T_MIN_def)
qed

lemma max_speed_overflow: "max_speed (80 - 2 ^ 512) = Inl OverflowError"
proof -
  have "float_of_int ((80 - 2 ^ 512 - T_MAX) ^ 2) = Inl OverflowError"
    by (rule float_of_int_overflow) (simp add: T_MAX_def FLT_OVERFLOW_def)
  then show ?thesis by (simp add: max_speed_def T_MAX_def)
qed

theorem target_speed_overflow_counterexample:
  "target_speed 0 (2 ^ 512 + 50) = Inl OverflowError"
  using not_float_range_hot by (rule target_speed_raises)

text \<open>
  Claim C1, as the code has it: for every current speed \<open>s\<close> and every temperature \<open>t\<close>
  in float range, \<open>target_speed s t\<close> returns a triple \<open>(r, l, u)\<close> whose bounds are
  \<open>min_speed t\<close> and \<open>max_speed t\<close>, with the speed \<open>r\<close> inside the band \<open>[l, u]\<close> and
  inside the safe band \<open>[S_MIN, S_MAX] = [30, 99]\<close>. Outside the float range the call raises
  \<open>OverflowError\<close> (\<open>target_speed_raises\<close>, and the counterexample above).
\<close>
theorem target_speed_clamped:
  assumes "float_range t"
  shows "\<exists>r l u. target_speed s t = Inr (r, l, u) \<and> min_speed t = Inr l \<and> max_speed t = Inr u \<and>
           l \<le> r \<and> r \<le> u \<and> S_MIN \<le> r \<and> r \<le> S_MAX"
proof -
  let ?l = "min_speed_spec t" and ?u = "max_speed_spec t"
  let ?r = "min (max s ?l) ?u"
  have "target_speed s t = Inr (?r, ?l, ?u)" using assms by (rule target_speed_returns)
  moreover have "min_speed t = Inr ?l" using assms by (rule min_speed_refines)
  moreover have "max_speed t = Inr ?u" using assms by (rule max_speed_refines)
  moreover have "?l \<le> ?r" and "?r \<le> ?u" using spec_band_nonempty [of t] by simp_all
  moreover have "S_MIN \<le> ?r" and "?r \<le> S_MAX"
    using min_speed_spec_bounds [of t] max_speed_spec_bounds [of t] by (auto simp: min_def max_def)
  ultimately show ?thesis by blast
qed

theorem target_speed_clamped_witness:
  "float_range 65 \<and>
   (\<exists>r l u. target_speed 70 65 = Inr (r, l, u) \<and> min_speed 65 = Inr l \<and> max_speed 65 = Inr u \<and>
      l \<le> r \<and> r \<le> u \<and> S_MIN \<le> r \<and> r \<le> S_MAX)"
  using target_speed_clamped [OF float_range_65, of 70] float_range_65 by simp

text \<open>
  Claim C2: for every temperature \<open>t\<close> and every speed \<open>s\<close> with
  \<open>min_speed t \<le> s \<le> max_speed t\<close>, \<open>target_speed s t\<close> returns \<open>s\<close> itself as its speed
  component: a speed inside the hysteresis band is left unchanged.
\<close>
theorem hysteresis_keeps_speed:
  assumes "min_speed t = Inr l" and "max_speed t = Inr u" and "l \<le> s" and "s \<le> u"
  shows "target_speed s t = Inr (s, l, u)"
  using assms by (simp add: target_speed_def)

theorem hysteresis_keeps_speed_witness:
  "min_speed 65 = Inr 47 \<and> max_speed 65 = Inr 81 \<and> (47::int) \<le> 60 \<and> (60::int) \<le> 81 \<and>
   target_speed 60 65 = Inr (60, 47, 81)"
  using hysteresis_keeps_speed [OF min_speed_65 max_speed_65, of 60] min_speed_65 max_speed_65
  by simp

theorem fan_curve_overflow_counterexample:
  "min_speed (2 ^ 512 + 50) \<noteq> Inr (min_speed_spec (2 ^ 512 + 50))"
  unfolding min_speed_overflow by simp

text \<open>
  Claim C3, as the code has it: for every temperature in float range the float
  computation of \<open>min_speed\<close> and \<open>max_speed\<close> returns exactly the value of the stated
  clamped quadratic, evaluated in exact arithmetic with
  \<open>SCALE = (S_MAX - S_MIN)/(T_MAX - T_MIN)\<^sup>2\<close>: \<open>S_MIN\<close> below \<open>T_MIN\<close> and
  \<open>int(min(SCALE*(t - T_MIN)\<^sup>2 + S_MIN, S_MAX))\<close> from \<open>T_MIN\<close> on for \<open>min_speed\<close>,
  \<open>S_MAX\<close> above \<open>T_MAX\<close> and \<open>int(max(S_MAX - SCALE*(t - T_MAX)\<^sup>2, S_MIN))\<close> up to
  \<open>T_MAX\<close> for \<open>max_speed\<close>.
\<close>
theorem fan_curve_is_clamped_quadratic:
  assumes "float_range t"
  shows "min_speed t = Inr (min_speed_spec t) \<and> max_speed t = Inr (max_speed_spec t)"
  using assms by (simp add: min_speed_refines max_speed_refines)

theorem fan_curve_is_clamped_quadratic_witness:
  "float_range 65 \<and> min_speed 65 = Inr (min_speed_spec 65) \<and> max_speed 65 = Inr (max_speed_spec 65)"
  using fan_curve_is_clamped_quadratic [OF float_range_65] float_range_65 by simp

theorem control_law_stateful_counterexample:
  "target_speed 50 65 = Inr (50, 47, 81) \<and> target_speed 60 65 = Inr (60, 47, 81) \<and> (50::int) \<noteq> 60"
  by (simp add: target_speed_def min_speed_65 max_speed_65)

text \<open>
  Claim C4, as the code has it: the band \<open>(l, u) = (min_speed t, max_speed t)\<close> that
  \<open>target_speed\<close> returns does not depend on the current speed, but the target speed is the
  current speed clamped into that band. Two current speeds \<open>s1\<close> and \<open>s2\<close> get the same
  target speed when both are at or below \<open>l\<close> (then it is \<open>l\<close>) or both at or above \<open>u\<close>
  (then it is \<open>u\<close>); inside the band each keeps its own value (the counterexample above).
\<close>
theorem control_law_band_stateless:
  assumes "float_range t"
  shows "\<exists>l u. min_speed t = Inr l \<and> max_speed t = Inr u \<and> l \<le> u \<and>
               target_speed s1 t = Inr (min (max s1 l) u, l, u) \<and>
               target_speed s2 t = Inr (min (max s2 l) u, l, u) \<and>
               (s1 \<le> l \<and> s2 \<le> l \<longrightarrow>
                  target_speed s1 t = Inr (l, l, u) \<and> target_speed s2 t = Inr (l, l, u)) \<and>
               (u \<le> s1 \<and> u \<le> s2 \<longrightarrow>
                  target_speed s1 t = Inr (u, l, u) \<and> target_speed s2 t = Inr (u, l, u))"
proof -
  let ?l = "min_speed_spec t" and ?u = "max_speed_spec t"
  have l: "min_speed t = Inr ?l" and u: "max_speed t = Inr ?u"
    using assms by (rule min_speed_refines, rule max_speed_refines)
  have lu: "?l \<le> ?u" by (rule spec_band_nonempty)
  have t1: "target_speed s1 t = Inr (min (max s1 ?l) ?u, ?l, ?u)"
    and t2: "target_speed s2 t = Inr (min (max s2 ?l) ?u, ?l, ?u)"
    using assms by (rule target_speed_returns)+
  have low: "s1 \<le> ?l \<and> s2 \<le> ?l \<longrightarrow>
      target_speed s1 t = Inr (?l, ?l, ?u) \<and> target_speed s2 t = Inr (?l, ?l, ?u)"
    using lu by (auto simp: t1 t2)
  have high: "?u \<le> s1 \<and> ?u \<le> s2 \<longrightarrow>
      target_speed s1 t = Inr (?u, ?l, ?u) \<and> target_speed s2 t = Inr (?u, ?l, ?u)"
    using lu by (auto simp: t1 t2)
  from l u lu t1 t2 low high show ?thesis by blast
qed

theorem control_law_band_stateless_witness:
  "float_range 65 \<and> min_speed 65 = Inr 47 \<and> max_speed 65 = Inr 81 \<and>
   target_speed 0 65 = Inr (47, 47, 81) \<and> target_speed 10 65 = Inr (47, 47, 81) \<and>
   target_speed 90 65 = Inr (81, 47, 81) \<and> target_speed 99 65 = Inr (81, 47, 81)"
proof -
  from control_law_band_stateless [OF float_range_65, of 0 10] obtain l u where
    a: "min_speed 65 = Inr l" "max_speed 65 = Inr u"
       "0 \<le> l \<and> 10 \<le> l \<longrightarrow>
          target_speed 0 65 = Inr (l, l, u) \<and> target_speed 10 65 = Inr (l, l, u)"
    by blast
  from a(1,2) have lu: "l = 47" "u = 81" by (simp_all add: min_speed_65 max_speed_65)
  from control_law_band_stateless [OF float_range_65, of 90 99] obtain l' u' where
    b: "min_speed 65 = Inr l'" "max_speed 65 = Inr u'"
       "u' \<le> 90 \<and> u' \<le> 99 \<longrightarrow>
          target_speed 90 65 = Inr (u', l', u') \<and> target_speed 99 65 = Inr (u', l', u')"
    by blast
  from b(1,2) have lu': "l' = 47" "u' = 81" by (simp_all add: min_speed_65 max_speed_65)
  from a(3) lu have "target_speed 0 65 = Inr (47, 47, 81) \<and> target_speed 10 65 = Inr (47, 47, 81)"
    by simp
  moreover from b(3) lu'
  have "target_speed 90 65 = Inr (81, 47, 81) \<and> target_speed 99 65 = Inr (81, 47, 81)"
    by simp
  ultimately show ?thesis using float_range_65 min_speed_65 max_speed_65 by simp
qed

theorem band_overflow_counterexample:
  "min_speed (80 - 2 ^ 512) = Inr 30 \<and> max_speed (80 - 2 ^ 512) = Inl OverflowError"
  using min_speed_cold [of "80 - 2 ^ 512"] max_speed_overflow by (simp add: T_MIN_def S_MIN_def)

text \<open>
  Claim C9, as the code has it: for every temperature \<open>t\<close> in float range
  \<open>min_speed t \<le> max_speed t\<close>, so that the clamp \<open>min (max s l) u\<close> lies in \<open>[l, u]\<close>;
  and at the endpoints the bounds coincide: both are \<open>S_MIN = 30\<close> at \<open>T_MIN = 50\<close> and
  both are \<open>S_MAX = 99\<close> at \<open>T_MAX = 80\<close>.
\<close>
theorem band_never_empty:
  assumes "float_range t"
  shows "(\<exists>l u. min_speed t = Inr l \<and> max_speed t = Inr u \<and> l \<le> u \<and>
            l \<le> min (max s l) u \<and> min (max s l) u \<le> u) \<and>
         min_speed T_MIN = Inr S_MIN \<and> max_speed T_MIN = Inr S_MIN \<and>
         min_speed T_MAX = Inr S_MAX \<and> max_speed T_MAX = Inr S_MAX"
proof -
  let ?l = "min_speed_spec t" and ?u = "max_speed_spec t"
  have "min_speed t = Inr ?l" and "max_speed t = Inr ?u"
    using assms by (rule min_speed_refines, rule max_speed_refines)
  moreover have "?l \<le> ?u" by (rule spec_band_nonempty)
  then have "?l \<le> ?u \<and> ?l \<le> min (max s ?l) ?u \<and> min (max s ?l) ?u \<le> ?u" by simp
  ultimately have band: "\<exists>l u. min_speed t = Inr l \<and> max_speed t = Inr u \<and> l \<le> u \<and>
            l \<le> min (max s l) u \<and> min (max s l) u \<le> u" by blast
  have "min_speed T_MIN = Inr S_MIN"
    using min_speed_mid [of T_MIN] by (simp add: T_MIN_def T_MAX_def)
  moreover have "max_speed T_MIN = Inr S_MIN"
    using max_speed_mid [of T_MIN] by (simp add: T_MIN_def T_MAX_def S_MIN_def S_MAX_def)
  moreover have "min_speed T_MAX = Inr S_MAX"
    using min_speed_mid [of T_MAX] by (simp add: T_MIN_def T_MAX_def S_MIN_def S_MAX_def)
  moreover have "max_speed T_MAX = Inr S_MAX"
    using max_speed_mid [of T_MAX] by (simp add: T_MIN_def T_MAX_def)
  ultimately show ?thesis using band by blast
qed

theorem band_never_empty_witness:
  "float_range 65 \<and>
   (\<exists>l u. min_speed 65 = Inr l \<and> max_speed 65 = Inr u \<and> l \<le> u \<and>
            l \<le> min (max 0 l) u \<and> min (max 0 l) u \<le> u) \<and>
   min_speed T_MIN = Inr S_MIN \<and> max_speed T_MIN = Inr S_MIN \<and>
   min_speed T_MAX = Inr S_MAX \<and> max_speed T_MAX = Inr S_MAX"
  using band_never_empty [OF float_range_65, of 0] float_range_65 by simp

theorem monotone_overflow_counterexample:
  "(80::int) \<le> 2 ^ 512 + 50 \<and> min_speed 80 = Inr 99 \<and> min_speed (2 ^ 512 + 50) = Inl OverflowError"
  using min_speed_mid [of 80] min_speed_overflow by (simp add: T_MIN_def T_MAX_def S_MIN_def)

text \<open>
  Claim C10, as the code has it: for temperatures \<open>t1 \<le> t2\<close> in float range,
  \<open>min_speed t1 \<le> min_speed t2\<close> and \<open>max_speed t1 \<le> max_speed t2\<close>, and for a fixed
  current speed \<open>s\<close> the speed component of \<open>target_speed s t\<close> does not decrease from
  \<open>t1\<close> to \<open>t2\<close>.
\<close>
theorem fan_curve_monotone:
  assumes "float_range t1" and "float_range t2" and "t1 \<le> t2"
  shows "\<exists>l1 u1 l2 u2.
           min_speed t1 = Inr l1 \<and> max_speed t1 = Inr u1 \<and>
           min_speed t2 = Inr l2 \<and> max_speed t2 = Inr u2 \<and> l1 \<le> l2 \<and> u1 \<le> u2 \<and>
           target_speed s t1 = Inr (min (max s l1) u1, l1, u1) \<and>
           target_speed s t2 = Inr (min (max s l2) u2, l2, u2) \<and>
           min (max s l1) u1 \<le> min (max s l2) u2"
proof -
  let ?l1 = "min_speed_spec t1" and ?u1 = "max_speed_spec t1"
  let ?l2 = "min_speed_spec t2" and ?u2 = "max_speed_spec t2"
  have l: "?l1 \<le> ?l2" and u: "?u1 \<le> ?u2"
    using assms(3) by (rule min_speed_spec_mono, rule max_speed_spec_mono)
  then have "min (max s ?l1) ?u1 \<le> min (max s ?l2) ?u2" by auto
  moreover have "min_speed t1 = Inr ?l1" "max_speed t1 = Inr ?u1"
    using assms(1) by (rule min_speed_refines, rule max_speed_refines)
  moreover have "min_speed t2 = Inr ?l2" "max_speed t2 = Inr ?u2"
    using assms(2) by (rule min_speed_refines, rule max_speed_refines)
  moreover have "target_speed s t1 = Inr (min (max s ?l1) ?u1, ?l1, ?u1)"
    using assms(1) by (rule target_speed_returns)
  moreover have "target_speed s t2 = Inr (min (max s ?l2) ?u2, ?l2, ?u2)"
    using assms(2) by (rule target_speed_returns)
  ultimately show ?thesis using l u by blast
qed

lemma float_range_70: "float_range 70"
  by (simp add: float_range_def T_MIN_def T_MAX_def FLT_OVERFLOW_def)

theorem fan_curve_monotone_witness:
  "float_range 65 \<and> float_range 70 \<and> (65::int) \<le> 70 \<and>
   (\<exists>l1 u1 l2 u2.
           min_speed 65 = Inr l1 \<and> max_speed 65 = Inr u1 \<and>
           min_speed 70 = Inr l2 \<and> max_speed 70 = Inr u2 \<and> l1 \<le> l2 \<and> u1 \<le> u2 \<and>
           target_speed 0 65 = Inr (min (max 0 l1) u1, l1, u1) \<and>
           target_speed 0 70 = Inr (min (max 0 l2) u2, l2, u2) \<and>
           min (max 0 l1) u1 \<le> min (max 0 l2) u2)"
  using fan_curve_monotone [OF float_range_65 float_range_70, of 0] float_range_65 float_range_70
  by simp

section \<open>Properties of the X servers and of the control loop\<close>

lemma digit_value_digit: "k < 10 \<Longrightarrow> digit_value (digit k) = k"
proof -
  assume "k < 10"
  then have "k \<in> {0, 1, 2, 3, 4, 5, 6, 7, 8, 9}" by auto
  then show ?thesis by (auto simp: digit_def digit_value_def)
qed

lemma nat_of_str_snoc: "nat_of_str (cs @ [c]) = 10 * nat_of_str cs + digit_value c"
  by (simp add: nat_of_str_def)

lemma nat_of_str_str_nat: "nat_of_str (str_nat n) = n"
proof (induction n rule: str_nat.induct)
  case (1 n)
  show ?case
  proof (cases "n < 10")
    case True
    then show ?thesis
      by (subst str_nat.simps) (simp add: nat_of_str_def digit_value_digit)
  next
    case False
    with 1 have "nat_of_str (str_nat (n div 10)) = n div 10" by simp
    with False show ?thesis
      by (subst str_nat.simps) (simp add: nat_of_str_snoc digit_value_digit)
  qed
qed

lemma str_nat_inj:
  assumes "str_nat m = str_nat n"
  shows "m = n"
proof -
  have "m = nat_of_str (str_nat m)" by (simp only: nat_of_str_str_nat)
  also have "\<dots> = nat_of_str (str_nat n)" by (simp only: assms)
  also have "\<dots> = n" by (rule nat_of_str_str_nat)
  finally show ?thesis .
qed

lemma str_nat_0: "str_nat 0 = ''0''"
  by (simp add: str_nat.simps digit_def)

lemma str_nat_1: "str_nat 1 = ''1''"
  by (simp add: str_nat.simps digit_def)

lemma spawned_append: "spawned (xs @ ys) = spawned xs @ spawned ys"
  by (induction xs rule: spawned.induct) simp_all

lemma terminated_append: "terminated (xs @ ys) = terminated xs @ terminated ys"
  by (induction xs rule: terminated.induct) simp_all

lemma queried_append: "queried (xs @ ys) = queried xs @ queried ys"
  by (induction xs rule: queried.induct) simp_all

lemma slept_append: "slept (xs @ ys) = slept xs @ slept ys"
  by (induction xs rule: slept.induct) simp_all

lemma assigned_append: "assigned (xs @ ys) = assigned xs @ assigned ys"
  by (induction xs rule: assigned.induct) simp_all

lemma update_fresh: "k \<notin> fst ` set al \<Longrightarrow> AList.update k v al = al @ [(k, v)]"
  by (induction al) auto

lemma inj_display_id: "inj display_id"
  by (rule injI) (simp add: display_id_def str_nat_inj)

lemma xservers_start_ok:
  assumes "\<forall>k d b. xserver_raises e k d b = None"
    and "distinct bs" and "set bs \<inter> fst ` set displays = {}" and "set bs \<inter> fst ` set servers = {}"
  shows "\<exists>tr'. xservers_start e (List.enumerate k bs) displays servers tr =
           (None, displays @ map (\<lambda>(i, b). (b, display_id i)) (List.enumerate k bs),
            servers @ map (\<lambda>(i, b). (b, i)) (List.enumerate (length (spawned tr)) bs), tr') \<and>
          spawned tr' = spawned tr @ map (\<lambda>(i, b). (display_id i, b)) (List.enumerate k bs)"
  using assms(2-4)
proof (induction bs arbitrary: k displays servers tr)
  case Nil
  then show ?case by simp
next
  case (Cons b rest)
  let ?disp = "display_id k"
  let ?tr2 = "tr @ [Print (''Starting xserver for display '' @ ?disp), Popen ?disp b]"
  let ?displays = "displays @ [(b, ?disp)]"
  let ?servers = "servers @ [(b, length (spawned tr))]"
  from Cons.prems have fresh: "b \<notin> fst ` set displays" "b \<notin> fst ` set servers" by auto
  have step: "xservers_start e (List.enumerate k (b # rest)) displays servers tr =
              xservers_start e (List.enumerate (Suc k) rest) ?displays ?servers ?tr2"
    using assms(1) fresh by (simp add: xserver_def update_fresh spawned_append Let_def)
  from Cons.prems have "distinct rest" "set rest \<inter> fst ` set ?displays = {}"
    "set rest \<inter> fst ` set ?servers = {}" by auto
  from Cons.IH [OF this, of "Suc k" ?tr2]
  obtain tr' where
    run: "xservers_start e (List.enumerate (Suc k) rest) ?displays ?servers ?tr2 =
           (None, ?displays @ map (\<lambda>(i, b). (b, display_id i)) (List.enumerate (Suc k) rest),
            ?servers @ map (\<lambda>(i, b). (b, i)) (List.enumerate (length (spawned ?tr2)) rest), tr')"
    and sp: "spawned tr' = spawned ?tr2 @ map (\<lambda>(i, b). (display_id i, b)) (List.enumerate (Suc k) rest)"
    by blast
  have l: "length (spawned ?tr2) = Suc (length (spawned tr))" by (simp add: spawned_append)
  have "xservers_start e (List.enumerate k (b # rest)) displays servers tr =
          (None, displays @ map (\<lambda>(i, b). (b, display_id i)) (List.enumerate k (b # rest)),
           servers @ map (\<lambda>(i, b). (b, i)) (List.enumerate (length (spawned tr)) (b # rest)), tr')"
    unfolding step run l by simp
  moreover have "spawned tr' = spawned tr @ map (\<lambda>(i, b). (display_id i, b)) (List.enumerate k (b # rest))"
    unfolding sp by (simp add: spawned_append)
  ultimately show ?case by blast
qed


lemma xservers_stop_ok:
  assumes "fst ` set S \<subseteq> fst ` set D"
  shows "\<exists>tr3. xservers_stop D S tr2 = (None, tr3) \<and> terminated tr3 = terminated tr2 @ map snd S \<and>
           spawned tr3 = spawned tr2"
  using assms
proof (induction S arbitrary: tr2)
  case Nil
  then show ?case by simp
next
  case (Cons p rest)
  obtain b server where p: "p = (b, server)" by (cases p)
  with Cons.prems have "b \<in> fst ` set D" by simp
  then obtain disp where disp: "map_of D b = Some disp"
    by (cases "map_of D b") (simp_all add: map_of_eq_None_iff)
  let ?tr = "tr2 @ [Print (''Terminating xserver for display '' @ disp), Terminate server]"
  from Cons.prems have "fst ` set rest \<subseteq> fst ` set D" by simp
  from Cons.IH [OF this, of ?tr] obtain tr3 where
    "xservers_stop D rest ?tr = (None, tr3)" "terminated tr3 = terminated ?tr @ map snd rest"
    "spawned tr3 = spawned ?tr" by blast
  then show ?case using p disp by (simp add: terminated_append spawned_append)
qed

lemma enumerate_display_zip:
  "map (\<lambda>(i, b). (b, f i)) (List.enumerate n bs) = zip bs (map f [n..<n + length bs])"
proof (induction bs arbitrary: n)
  case Nil
  then show ?case by simp
next
  case (Cons b bs)
  have "[n..<n + length (b # bs)] = n # [Suc n..<Suc n + length bs]"
    using upt_conv_Cons [of n "n + length (b # bs)"] by simp
  then show ?case using Cons.IH [of "Suc n"] by simp
qed

lemma display_id_0: "display_id 0 = '':0''"
  by (simp add: display_id_def str_nat_0)

lemma display_id_1: "display_id (Suc 0) = '':1''"
  using str_nat_1 by (simp add: display_id_def)

theorem xservers_duplicate_bus_counterexample:
  "xservers_start quiet_env (List.enumerate 0 [''00000000:01:00.0'', ''00000000:01:00.0'']) [] [] [] =
     (None, [(''00000000:01:00.0'', '':1'')], [(''00000000:01:00.0'', 1)],
      [Print ''Starting xserver for display :0'', Popen '':0'' ''00000000:01:00.0'',
       Print ''Starting xserver for display :1'', Popen '':1'' ''00000000:01:00.0''])"
  by (simp add: xserver_def quiet_env_def display_id_0 display_id_1 Let_def)

text \<open>
  Claim C5, as the code has it: for every list of pairwise distinct bus IDs whose X servers
  all start, the loop starts exactly one \<^verbatim>\<open>Xorg\<close> process per bus, the i-th one on display
  \<open>:i\<close> for the i-th bus, and the body of the \<^verbatim>\<open>with\<close> statement runs on the mapping that
  sends the i-th bus (0-based) to \<open>:i\<close>; the display IDs are pairwise distinct.
\<close>

theorem xservers_one_server_per_bus:
  assumes "distinct buses" and "\<forall>k d b. xserver_raises e k d b = None"
  shows "\<exists>displays servers tr1.
           xservers_start e (List.enumerate 0 buses) [] [] tr = (None, displays, servers, tr1) \<and>
           displays = map (\<lambda>(i, b). (b, display_id i)) (List.enumerate 0 buses) \<and>
           spawned tr1 = spawned tr @ map (\<lambda>(i, b). (display_id i, b)) (List.enumerate 0 buses) \<and>
           distinct (map snd displays) \<and>
           (\<forall>i < length buses. map_of displays (buses ! i) = Some (display_id i)) \<and>
           xservers e buses body tr =
             (case body displays tr1 of
                None \<Rightarrow> None
              | Some (r', tr2) \<Rightarrow> Some (r', snd (xservers_stop displays servers tr2)))"
proof -
  let ?D = "map (\<lambda>(i, b). (b, display_id i)) (List.enumerate 0 buses)"
  let ?S = "map (\<lambda>(i, b). (b, i)) (List.enumerate (length (spawned tr)) buses)"
  from xservers_start_ok [OF assms(2,1), of "[]" "[]" 0 tr]
  obtain tr1 where run: "xservers_start e (List.enumerate 0 buses) [] [] tr = (None, ?D, ?S, tr1)"
    and sp: "spawned tr1 = spawned tr @ map (\<lambda>(i, b). (display_id i, b)) (List.enumerate 0 buses)"
    by auto
  have Dz: "?D = zip buses (map display_id [0..<length buses])"
    using enumerate_display_zip [of display_id 0 buses] by simp
  have Sz: "?S = zip buses (map (\<lambda>i. i) [length (spawned tr)..<length (spawned tr) + length buses])"
    by (rule enumerate_display_zip)
  have "map snd ?D = map display_id [0..<length buses]" unfolding Dz by simp
  moreover have "distinct (map display_id [0..<length buses])"
    using inj_display_id by (simp add: distinct_map inj_on_def inj_def)
  ultimately have dist: "distinct (map snd ?D)" by simp
  have nth: "\<forall>i < length buses. map_of ?D (buses ! i) = Some (display_id i)"
  proof (intro allI impI)
    fix i assume i: "i < length buses"
    have "map_of (zip buses (map display_id [0..<length buses])) (buses ! i) =
            Some (map display_id [0..<length buses] ! i)"
      using assms(1) i by (intro map_of_zip_nth) simp_all
    then show "map_of ?D (buses ! i) = Some (display_id i)" using i unfolding Dz by simp
  qed
  have "fst ` set ?S \<subseteq> fst ` set ?D" unfolding Dz Sz by (simp add: map_fst_zip flip: set_map)
  then have stop: "\<And>tr2. fst (xservers_stop ?D ?S tr2) = None"
    using xservers_stop_ok [of ?S ?D] by (metis fst_conv)
  have "xservers e buses body tr =
          (case body ?D tr1 of
             None \<Rightarrow> None
           | Some (r', tr2) \<Rightarrow> Some (r', snd (xservers_stop ?D ?S tr2)))"
  proof (cases "body ?D tr1")
    case None
    then show ?thesis by (simp add: xservers_def run)
  next
    case (Some p)
    obtain r' tr2 where p: "p = (r', tr2)" by (cases p)
    obtain tr3 where "xservers_stop ?D ?S tr2 = (None, tr3)"
      using stop [of tr2] by (cases "xservers_stop ?D ?S tr2") simp
    then show ?thesis using Some p by (simp add: xservers_def run)
  qed
  with run sp dist nth show ?thesis by blast
qed



theorem xservers_one_server_per_bus_witness:
  "distinct [''00000000:01:00.0'', ''00000000:02:00.0''] \<and>
   (\<forall>k d b. xserver_raises quiet_env k d b = None) \<and>
   (\<exists>displays servers tr1.
      xservers_start quiet_env (List.enumerate 0 [''00000000:01:00.0'', ''00000000:02:00.0'']) [] [] [] =
        (None, displays, servers, tr1) \<and>
      displays = map (\<lambda>(i, b). (b, display_id i))
                   (List.enumerate 0 [''00000000:01:00.0'', ''00000000:02:00.0'']) \<and>
      spawned tr1 = spawned [] @ map (\<lambda>(i, b). (display_id i, b))
                   (List.enumerate 0 [''00000000:01:00.0'', ''00000000:02:00.0'']) \<and>
      distinct (map snd displays) \<and>
      (\<forall>i < length [''00000000:01:00.0'', ''00000000:02:00.0''].
         map_of displays ([''00000000:01:00.0'', ''00000000:02:00.0''] ! i) = Some (display_id i)) \<and>
      xservers quiet_env [''00000000:01:00.0'', ''00000000:02:00.0''] (\<lambda>displays tr. Some (None, tr)) [] =
        (case (\<lambda>displays tr. Some (None, tr)) displays tr1 of
           None \<Rightarrow> None
         | Some (r', tr2) \<Rightarrow> Some (r', snd (xservers_stop displays servers tr2))))"
proof -
  have d: "distinct [''00000000:01:00.0'', ''00000000:02:00.0'']" by simp
  have q: "\<forall>k d b. xserver_raises quiet_env k d b = None" by (simp add: quiet_env_def)
  from xservers_one_server_per_bus [OF d q, of "[]" "\<lambda>displays tr. Some (None, tr)"] d q
  show ?thesis by blast
qed



lemma manage_gpu_trace:
  assumes "manage_gpu e b d speeds tr = Inr (speeds', tr')"
  shows "\<exists>evs. tr' = tr @ evs \<and> queried evs = [b] \<and> slept evs = []"
  using assms
  by (auto simp: manage_gpu_def temperature_def set_speed_def assign_def
           split: sum.splits option.splits prod.splits if_splits)

lemma manage_gpus_trace:
  assumes "manage_gpus e ds speeds tr = Inr (speeds', tr')"
  shows "\<exists>evs. tr' = tr @ evs \<and> queried evs = map fst ds \<and> slept evs = []"
  using assms
proof (induction ds arbitrary: speeds tr)
  case Nil
  then show ?case by simp
next
  case (Cons p rest)
  obtain b d where p: "p = (b, d)" by (cases p)
  from Cons.prems p obtain speeds1 tr1 where
    one: "manage_gpu e b d speeds tr = Inr (speeds1, tr1)"
    and more: "manage_gpus e rest speeds1 tr1 = Inr (speeds', tr')"
    by (auto split: sum.splits)
  from manage_gpu_trace [OF one] obtain evs1 where
    e1: "tr1 = tr @ evs1" "queried evs1 = [b]" "slept evs1 = []" by blast
  from Cons.IH [OF more] obtain evs2 where
    e2: "tr' = tr1 @ evs2" "queried evs2 = map fst rest" "slept evs2 = []" by blast
  have "tr' = tr @ (evs1 @ evs2)" using e1(1) e2(1) by simp
  moreover have "queried (evs1 @ evs2) = map fst (p # rest)"
    using e1(2) e2(2) p by (simp add: queried_append)
  moreover have "slept (evs1 @ evs2) = []" using e1(3) e2(3) by (simp add: slept_append)
  ultimately show ?case by blast
qed

lemma iteration_trace:
  assumes "iteration e displays speeds tr = Inr (speeds', tr')"
  shows "\<exists>evs. tr' = tr @ evs @ [Sleep 5] \<and> queried evs = map fst displays \<and> slept evs = []"
proof -
  from assms obtain tr1 where
    gpus: "manage_gpus e displays speeds tr = Inr (speeds', tr1)" and tr': "tr' = tr1 @ [Sleep 5]"
    by (auto simp: iteration_def sleep_def split: sum.splits option.splits prod.splits)
  from manage_gpus_trace [OF gpus] obtain evs where
    "tr1 = tr @ evs" "queried evs = map fst displays" "slept evs = []" by blast
  with tr' show ?thesis by auto
qed

lemma passes_trace:
  assumes "passes e displays n speeds tr = Inr (speeds', tr')"
  shows "\<exists>blocks. tr' = tr @ concat blocks \<and> length blocks = n \<and>
           (\<forall>blk \<in> set blocks. \<exists>evs. blk = evs @ [Sleep 5] \<and>
              queried evs = map fst displays \<and> slept evs = [])"
  using assms
proof (induction n arbitrary: speeds tr)
  case 0
  then show ?case by simp
next
  case (Suc n)
  from Suc.prems obtain speeds1 tr1 where
    one: "iteration e displays speeds tr = Inr (speeds1, tr1)"
    and more: "passes e displays n speeds1 tr1 = Inr (speeds', tr')"
    by (auto split: sum.splits)
  from iteration_trace [OF one] obtain evs where
    evs: "tr1 = tr @ evs @ [Sleep 5]" "queried evs = map fst displays" "slept evs = []" by blast
  from Suc.IH [OF more] obtain blocks where
    blocks: "tr' = tr1 @ concat blocks" "length blocks = n"
      "\<forall>blk \<in> set blocks. \<exists>evs. blk = evs @ [Sleep 5] \<and>
         queried evs = map fst displays \<and> slept evs = []"
    by blast
  let ?blocks = "(evs @ [Sleep 5]) # blocks"
  have "tr' = tr @ concat ?blocks" using evs(1) blocks(1) by simp
  moreover have "length ?blocks = Suc n" using blocks(2) by simp
  moreover have "\<forall>blk \<in> set ?blocks. \<exists>evs. blk = evs @ [Sleep 5] \<and>
      queried evs = map fst displays \<and> slept evs = []"
    using evs(2,3) blocks(3) by auto
  ultimately show ?case by blast
qed

lemma manage_loop_passes:
  assumes "passes e displays n speeds tr = Inr (speeds', tr')"
  shows "manage_loop e displays speeds tr = manage_loop e displays speeds' tr'"
  using assms
proof (induction n arbitrary: speeds tr)
  case 0
  then show ?case by simp
next
  case (Suc n)
  from Suc.prems obtain speeds1 tr1 where
    one: "iteration e displays speeds tr = Inr (speeds1, tr1)"
    and more: "passes e displays n speeds1 tr1 = Inr (speeds', tr')"
    by (auto split: sum.splits)
  have "manage_loop e displays speeds tr = manage_loop e displays speeds1 tr1"
    by (subst manage_loop.simps) (simp add: one)
  also have "\<dots> = manage_loop e displays speeds' tr'" using more by (rule Suc.IH)
  finally show ?case .
qed

lemma manage_loop_stops:
  assumes "iteration e displays speeds tr = Inl (err, tr')"
  shows "manage_loop e displays speeds tr = Some (err, tr')"
  by (subst manage_loop.simps) (simp add: assms)

text \<open>
  Claim C7: the control loop runs pass after pass, and every pass that runs to its end
  queries every GPU of the mapping, in the order of the mapping, and then calls
  \<^verbatim>\<open>time.sleep(5)\<close>, once and as its last action, before the next pass starts: after \<open>n\<close>
  completed passes the trace of \<open>manage_loop\<close> has grown by \<open>n\<close> such blocks, and when the
  pass after them raises, the loop ends with that exception and the trace up to it. The
  interval is the argument of the call.
\<close>

theorem control_loop_polls:
  assumes "passes e displays n speeds tr = Inr (speeds', tr')"
  shows "(\<exists>blocks. tr' = tr @ concat blocks \<and> length blocks = n \<and>
            (\<forall>blk \<in> set blocks. \<exists>evs. blk = evs @ [Sleep 5] \<and>
               queried evs = map fst displays \<and> slept evs = [])) \<and>
         (\<forall>err tr''. iteration e displays speeds' tr' = Inl (err, tr'') \<longrightarrow>
            manage_loop e displays speeds tr = Some (err, tr''))"
proof
  show "\<exists>blocks. tr' = tr @ concat blocks \<and> length blocks = n \<and>
            (\<forall>blk \<in> set blocks. \<exists>evs. blk = evs @ [Sleep 5] \<and>
               queried evs = map fst displays \<and> slept evs = [])"
    using assms by (rule passes_trace)
  show "\<forall>err tr''. iteration e displays speeds' tr' = Inl (err, tr'') \<longrightarrow>
            manage_loop e displays speeds tr = Some (err, tr'')"
    using manage_loop_passes [OF assms] manage_loop_stops by simp
qed

lemma target_speed_60: "target_speed 0 60 = Inr (37, 37, 68)" "target_speed 37 60 = Inr (37, 37, 68)"
  using min_speed_mid [of 60] max_speed_mid [of 60]
  by (simp_all add: target_speed_def T_MIN_def T_MAX_def S_MIN_def S_MAX_def)

lemma str_int_values: "str_int 60 = ''60''" "str_int 37 = ''37''" "str_int 68 = ''68''"
  by (simp_all add: str_int_def str_nat.simps digit_def)

lemma interrupted_first_pass:
  "passes interrupted_env [(''00000000:01:00.0'', '':0''), (''00000000:02:00.0'', '':1'')] 1
     [(''00000000:01:00.0'', 0), (''00000000:02:00.0'', 0)] [] =
     Inr ([(''00000000:01:00.0'', 37), (''00000000:02:00.0'', 37)],
          [Query ''00000000:01:00.0'',
           Assign '':0'' ''[gpu:0]/GPUFanControlState=1'',
           Assign '':0'' ''[fan:0]/GPUTargetFanSpeed=37'',
           Print ''GPU :0, 60C -> [37%-68%]. Setting speed to 37%'',
           Query ''00000000:02:00.0'',
           Assign '':1'' ''[gpu:0]/GPUFanControlState=1'',
           Assign '':1'' ''[fan:0]/GPUTargetFanSpeed=37'',
           Print ''GPU :1, 60C -> [37%-68%]. Setting speed to 37%'',
           Sleep 5])"
  by (simp add: iteration_def manage_gpu_def temperature_def set_speed_def assign_def sleep_def
        report_def interrupted_env_def quiet_env_def target_speed_60 str_int_values)

lemma interrupted_second_pass:
  "iteration interrupted_env [(''00000000:01:00.0'', '':0''), (''00000000:02:00.0'', '':1'')]
     [(''00000000:01:00.0'', 37), (''00000000:02:00.0'', 37)]
     [Query ''00000000:01:00.0'',
      Assign '':0'' ''[gpu:0]/GPUFanControlState=1'',
      Assign '':0'' ''[fan:0]/GPUTargetFanSpeed=37'',
      Print ''GPU :0, 60C -> [37%-68%]. Setting speed to 37%'',
      Query ''00000000:02:00.0'',
      Assign '':1'' ''[gpu:0]/GPUFanControlState=1'',
      Assign '':1'' ''[fan:0]/GPUTargetFanSpeed=37'',
      Print ''GPU :1, 60C -> [37%-68%]. Setting speed to 37%'',
      Sleep 5] =
     Inl (KeyboardInterrupt,
          [Query ''00000000:01:00.0'',
           Assign '':0'' ''[gpu:0]/GPUFanControlState=1'',
           Assign '':0'' ''[fan:0]/GPUTargetFanSpeed=37'',
           Print ''GPU :0, 60C -> [37%-68%]. Setting speed to 37%'',
           Query ''00000000:02:00.0'',
           Assign '':1'' ''[gpu:0]/GPUFanControlState=1'',
           Assign '':1'' ''[fan:0]/GPUTargetFanSpeed=37'',
           Print ''GPU :1, 60C -> [37%-68%]. Setting speed to 37%'',
           Sleep 5,
           Query ''00000000:01:00.0'',
           Print ''GPU :0, 60C -> [37%-68%]. Leaving speed at 37%'',
           Query ''00000000:02:00.0'',
           Print ''GPU :1, 60C -> [37%-68%]. Leaving speed at 37%'',
           Sleep 5])"
  by (simp add: iteration_def manage_gpu_def temperature_def set_speed_def assign_def sleep_def
        report_def interrupted_env_def quiet_env_def target_speed_60 str_int_values)

theorem control_loop_polls_witness:
  "passes interrupted_env [(''00000000:01:00.0'', '':0''), (''00000000:02:00.0'', '':1'')] 1
     [(''00000000:01:00.0'', 0), (''00000000:02:00.0'', 0)] [] =
     Inr ([(''00000000:01:00.0'', 37), (''00000000:02:00.0'', 37)],
          [Query ''00000000:01:00.0'',
           Assign '':0'' ''[gpu:0]/GPUFanControlState=1'',
           Assign '':0'' ''[fan:0]/GPUTargetFanSpeed=37'',
           Print ''GPU :0, 60C -> [37%-68%]. Setting speed to 37%'',
           Query ''00000000:02:00.0'',
           Assign '':1'' ''[gpu:0]/GPUFanControlState=1'',
           Assign '':1'' ''[fan:0]/GPUTargetFanSpeed=37'',
           Print ''GPU :1, 60C -> [37%-68%]. Setting speed to 37%'',
           Sleep 5]) \<and>
   manage_loop interrupted_env [(''00000000:01:00.0'', '':0''), (''00000000:02:00.0'', '':1'')]
     [(''00000000:01:00.0'', 0), (''00000000:02:00.0'', 0)] [] =
     Some (KeyboardInterrupt,
          [Query ''00000000:01:00.0'',
           Assign '':0'' ''[gpu:0]/GPUFanControlState=1'',
           Assign '':0'' ''[fan:0]/GPUTargetFanSpeed=37'',
           Print ''GPU :0, 60C -> [37%-68%]. Setting speed to 37%'',
           Query ''00000000:02:00.0'',
           Assign '':1'' ''[gpu:0]/GPUFanControlState=1'',
           Assign '':1'' ''[fan:0]/GPUTargetFanSpeed=37'',
           Print ''GPU :1, 60C -> [37%-68%]. Setting speed to 37%'',
           Sleep 5,
           Query ''00000000:01:00.0'',
           Print ''GPU :0, 60C -> [37%-68%]. Leaving speed at 37%'',
           Query ''00000000:02:00.0'',
           Print ''GPU :1, 60C -> [37%-68%]. Leaving speed at 37%'',
           Sleep 5])"
  using control_loop_polls [OF interrupted_first_pass] interrupted_first_pass
    interrupted_second_pass
  by blast



lemma manage_fans_from_step:
  assumes "iteration e displays speeds tr = Inr (speeds', tr')"
  shows "manage_fans_from e displays speeds tr = manage_fans_from e displays speeds' tr'"
proof -
  have "manage_loop e displays speeds tr = manage_loop e displays speeds' tr'"
    by (subst manage_loop.simps) (simp add: assms)
  then show ?thesis by (simp add: manage_fans_from_def)
qed




end
